theory Spec2Isabelle
  imports Complex_Main "HOL-Library.Multiset"
begin

section \<open>The MCTS player of agent.h\<close>

text \<open>
  A shallow embedding of \<^verbatim>\<open>class MCTSplayer\<close> (agent.h). The search tree is a graph of
  heap-allocated \<^verbatim>\<open>Node\<close> objects linked by raw pointers in both directions, so the heap
  is explicit: a list of nodes indexed by address, where \<^verbatim>\<open>new Node()\<close> appends a
  cell. A pointer is a \<open>nat option\<close> (\<open>None\<close> is \<^verbatim>\<open>nullptr\<close>). Every operation that
  the C++ leaves undefined (a dereference of an address that holds no node, a read of an
  uninitialised local) and every loop that does not return yield \<open>None\<close>.

  board.h and action.h are not part of the sources; what agent.h calls from them, from
  \<^verbatim>\<open><random>\<close> and \<^verbatim>\<open><algorithm>\<close>, and what \<^verbatim>\<open><cmath>\<close> leaves open about \<^verbatim>\<open>log\<close>, is
  a parameter of the model (record \<open>game\<close>).
\<close>

subsection \<open>External collaborators\<close>

text \<open>\<^verbatim>\<open>board::piece_type\<close>: agent.h names \<^verbatim>\<open>board::empty\<close>, \<^verbatim>\<open>board::black\<close> and
  \<^verbatim>\<open>board::white\<close>; any further enumerator behaves as \<open>Empty\<close> does in every comparison
  agent.h makes.\<close>

datatype piece_type = Empty | Black | White

text \<open>The value \<^verbatim>\<open>take_action\<close> returns: \<^verbatim>\<open>action()\<close>, or a node's
  \<^verbatim>\<open>action::place\<close> converted to \<^verbatim>\<open>action\<close>.\<close>

datatype 'm action = Action_default | Action_place 'm

text \<open>
  What agent.h uses of the board (type \<open>'b\<close>), of \<^verbatim>\<open>action::place\<close> (type \<open>'m\<close>) and of
  \<^verbatim>\<open>std::default_random_engine\<close> (type \<open>'e\<close>):
  \<^item> \<open>board_place b m\<close> is \<^verbatim>\<open>b.place(m.position())\<close>: whether the result is
    \<^verbatim>\<open>board::legal\<close>, and the board afterwards;
  \<^item> \<open>action_apply m b\<close> is the board after \<^verbatim>\<open>m.apply(b)\<close> (agent.h ignores the result);
  \<^item> \<open>who_take_turn b\<close> is \<^verbatim>\<open>b.get_who_take_turn()\<close>;
  \<^item> \<open>std_shuffle xs e\<close> is \<^verbatim>\<open>std::shuffle(xs.begin(), xs.end(), e)\<close>: the reordered
    vector and the advanced engine;
  \<^item> \<open>default_place\<close> is the default-constructed \<^verbatim>\<open>action::place\<close> of a fresh node;
  \<^item> \<open>place_of i w\<close> is \<^verbatim>\<open>action::place(i, w)\<close>, and \<open>board_cells\<close> is
    \<^verbatim>\<open>board::size_x * board::size_y\<close>;
  \<^item> \<open>default_engine\<close> is the default-constructed engine and \<open>seed_engine s\<close> the
    engine after \<^verbatim>\<open>engine.seed(s)\<close>;
  \<^item> \<open>log_rounds_up x\<close> tells which neighbour \<^verbatim>\<open>log(x)\<close> returns when the exact
    logarithm is not a double (see \<open>dbl_log\<close> below).
\<close>

record ('b, 'm, 'e) game =
  board_place :: "'b \<Rightarrow> 'm \<Rightarrow> bool \<times> 'b"
  action_apply :: "'m \<Rightarrow> 'b \<Rightarrow> 'b"
  who_take_turn :: "'b \<Rightarrow> piece_type"
  std_shuffle :: "'m list \<Rightarrow> 'e \<Rightarrow> 'm list \<times> 'e"
  default_place :: "'m"
  place_of :: "nat \<Rightarrow> piece_type \<Rightarrow> 'm"
  board_cells :: nat
  default_engine :: "'e"
  seed_engine :: "int \<Rightarrow> 'e"
  log_rounds_up :: "real \<Rightarrow> bool"

subsection \<open>Doubles\<close>

text \<open>
  A \<^verbatim>\<open>double\<close> is a binary64 value of IEEE 754: NaN, an infinity, or a finite number,
  kept as the real it denotes (the sign of a zero is dropped: agent.h divides by no
  computed zero). A comparison with NaN is false. Every operation rounds its exact
  result once, to double: no excess precision, no fused multiply-add.
\<close>

datatype dbl = NaN | NInf | Fin real | PInf

text \<open>The largest finite double.\<close>

definition max_finite :: real where
  "max_finite = (2 ^ 53 - 1) * 2 ^ 971"

definition DBL_MAX :: dbl where
  "DBL_MAX = Fin max_finite"

text \<open>
  Rounding. The doubles around \<open>x\<close> are the multiples of \<open>quantum x\<close>: 52 binary places
  below the leading bit of \<open>x\<close>, and never finer than \<open>2 powi - 1074\<close>, the spacing of the
  subnormal numbers. \<open>rnd_to r x\<close> scales \<open>x\<close> by that spacing, makes the quotient an
  integer with \<open>r\<close> and scales back; a result beyond the largest finite double is an
  infinity. \<open>rnd\<close> rounds to nearest, ties to even: what every arithmetic operation and
  \<^verbatim>\<open>sqrt\<close> do to their exact result, and what a decimal literal denotes.
\<close>

definition binade :: "real \<Rightarrow> int" where
  "binade x = \<lfloor>log 2 \<bar>x\<bar>\<rfloor>"

definition quantum :: "real \<Rightarrow> real" where
  "quantum x = 2 powi (max (binade x) (- 1022) - 52)"

definition round_even :: "real \<Rightarrow> int" where
  "round_even q =
     (let f = \<lfloor>q\<rfloor> in
      if q - real_of_int f < 1 / 2 then f
      else if 1 / 2 < q - real_of_int f then f + 1
      else if even f then f else f + 1)"

definition rnd_to :: "(real \<Rightarrow> int) \<Rightarrow> real \<Rightarrow> dbl" where
  "rnd_to r x =
     (let y = real_of_int (r (x / quantum x)) * quantum x in
      if max_finite < y then PInf else if y < - max_finite then NInf else Fin y)"

definition rnd :: "real \<Rightarrow> dbl" where
  "rnd = rnd_to round_even"

text \<open>
  \<^verbatim>\<open>log(k)\<close> of an int, which converts to double exactly (an int has 32 bits). The C
  library does not promise the nearest double; its result is taken to be one of the two
  doubles that enclose the exact logarithm (that double itself when it is one), and
  \<open>log_rounds_up\<close> of the game record says which.
\<close>

definition dbl_log :: "('b, 'm, 'e) game \<Rightarrow> int \<Rightarrow> dbl" where
  "dbl_log G k =
     (if 0 < k
      then rnd_to (if log_rounds_up G (real_of_int k) then ceiling else floor)
             (ln (real_of_int k))
      else if k = 0 then NInf else NaN)"

text \<open>\<^verbatim>\<open>d / k\<close> for a double and an int (converted exactly, as in the sum below).\<close>

fun dbl_div_int :: "dbl \<Rightarrow> int \<Rightarrow> dbl" where
  "dbl_div_int NaN k = NaN"
| "dbl_div_int (Fin x) k =
     (if k = 0 then (if 0 < x then PInf else if x < 0 then NInf else NaN)
      else rnd (x / real_of_int k))"
| "dbl_div_int NInf k = (if 0 \<le> k then NInf else PInf)"
| "dbl_div_int PInf k = (if 0 \<le> k then PInf else NInf)"

fun dbl_sqrt :: "dbl \<Rightarrow> dbl" where
  "dbl_sqrt NaN = NaN"
| "dbl_sqrt NInf = NaN"
| "dbl_sqrt (Fin x) = (if 0 \<le> x then rnd (sqrt x) else NaN)"
| "dbl_sqrt PInf = PInf"

text \<open>\<^verbatim>\<open>c * d\<close>.\<close>

fun dbl_mul :: "dbl \<Rightarrow> dbl \<Rightarrow> dbl" where
  "dbl_mul NaN d = NaN"
| "dbl_mul c NaN = NaN"
| "dbl_mul (Fin x) (Fin y) = rnd (x * y)"
| "dbl_mul (Fin x) PInf = (if 0 < x then PInf else if x < 0 then NInf else NaN)"
| "dbl_mul (Fin x) NInf = (if 0 < x then NInf else if x < 0 then PInf else NaN)"
| "dbl_mul PInf (Fin y) = (if 0 < y then PInf else if y < 0 then NInf else NaN)"
| "dbl_mul NInf (Fin y) = (if 0 < y then NInf else if y < 0 then PInf else NaN)"
| "dbl_mul PInf PInf = PInf"
| "dbl_mul PInf NInf = NInf"
| "dbl_mul NInf PInf = NInf"
| "dbl_mul NInf NInf = PInf"

text \<open>\<^verbatim>\<open>k + d\<close> for an int \<open>k\<close>.\<close>

fun dbl_add_int :: "int \<Rightarrow> dbl \<Rightarrow> dbl" where
  "dbl_add_int k (Fin x) = rnd (real_of_int k + x)"
| "dbl_add_int k d = d"

text \<open>\<^verbatim>\<open>a > b\<close>.\<close>

fun dbl_gt :: "dbl \<Rightarrow> dbl \<Rightarrow> bool" where
  "dbl_gt NaN b = False"
| "dbl_gt a NaN = False"
| "dbl_gt PInf b = (b \<noteq> PInf)"
| "dbl_gt a PInf = False"
| "dbl_gt (Fin x) (Fin y) = (y < x)"
| "dbl_gt (Fin x) NInf = True"
| "dbl_gt NInf b = False"

text \<open>\<^verbatim>\<open>a / b\<close> on ints truncates towards zero.\<close>

definition int_div :: "int \<Rightarrow> int \<Rightarrow> int" where
  "int_div a b = sgn a * sgn b * (\<bar>a\<bar> div \<bar>b\<bar>)"

subsection \<open>Nodes and the heap\<close>

text \<open>\<^verbatim>\<open>class Node\<close>; the fields \<^verbatim>\<open>n\<close> and \<^verbatim>\<open>w\<close> are \<open>node_n\<close> and \<open>node_w\<close>, the
  others carry the prefix too. The counters are C++ ints; no run of \<^verbatim>\<open>take_action\<close>
  pushes them past \<^verbatim>\<open>simulation_times\<close>, itself an int, so they are modelled unbounded.\<close>

record 'm Node =
  node_parent :: "nat option"
  node_children :: "nat list"
  node_placer :: piece_type
  node_move :: 'm
  node_n :: int
  node_w :: int

type_synonym 'm heap = "'m Node list"

text \<open>The member initialisers of \<^verbatim>\<open>Node\<close>.\<close>

definition Node_new :: "('b, 'm, 'e) game \<Rightarrow> 'm Node" where
  "Node_new G = \<lparr>node_parent = None, node_children = [], node_placer = Black,
     node_move = default_place G, node_n = 0, node_w = 0\<rparr>"

text \<open>Reading through a pointer: undefined where no node lives.\<close>

definition deref :: "'m heap \<Rightarrow> nat \<Rightarrow> 'm Node option" where
  "deref h a = (if a < length h then Some (h ! a) else None)"

definition is_unvisited :: "'m Node \<Rightarrow> bool" where
  "is_unvisited nd = (if node_n nd = 0 then True else False)"

subsection \<open>The agent\<close>

record ('m, 'e) agent =
  space :: "'m list"
  who :: piece_type
  simulation_times :: int
  engine :: 'e

text \<open>\<^verbatim>\<open>reverse_player\<close> returns an uninitialised local when its argument is neither
  black nor white.\<close>

definition reverse_player :: "piece_type \<Rightarrow> piece_type option" where
  "reverse_player one_side =
     (if one_side = Black then Some White
      else if one_side = White then Some Black
      else None)"

text \<open>
  The constructors of \<^verbatim>\<open>random_agent\<close> and \<^verbatim>\<open>MCTSplayer\<close>, given the values class
  \<^verbatim>\<open>agent\<close> has parsed from the argument string (the \<open>key=value\<close> parsing is not
  modelled): the name, the role, and the \<^verbatim>\<open>seed\<close> and \<^verbatim>\<open>T\<close> options where present.
  The engine is seeded here and nowhere else.
\<close>

datatype error = invalid_argument string

text \<open>\<^verbatim>\<open>name().find_first_of("[]():; ") != std::string::npos\<close>.\<close>

definition invalid_name :: "string \<Rightarrow> bool" where
  "invalid_name name \<longleftrightarrow> (\<exists>c\<in>set name. c \<in> set ''[]():; '')"

text \<open>The value of \<^verbatim>\<open>who\<close> after the two tests of \<^verbatim>\<open>role()\<close>.\<close>

definition role_side :: "string \<Rightarrow> piece_type" where
  "role_side role =
     (let who0 = Empty;
          who1 = (if role = ''black'' then Black else who0);
          who2 = (if role = ''white'' then White else who1)
      in who2)"

definition MCTSplayer_new :: "('b, 'm, 'e) game \<Rightarrow> string \<Rightarrow> string \<Rightarrow> int option \<Rightarrow> int option
    \<Rightarrow> error + ('m, 'e) agent" where
  "MCTSplayer_new G name role seed T =
     (let engine0 = (case seed of None \<Rightarrow> default_engine G | Some s \<Rightarrow> seed_engine G s) in
      if invalid_name name then Inl (invalid_argument (''invalid name: '' @ name))
      else if role_side role = Empty then Inl (invalid_argument (''invalid role: '' @ role))
      else Inr \<lparr>space = map (\<lambda>i. place_of G i (role_side role)) [0..<board_cells G],
                 who = role_side role,
                 simulation_times = (case T of None \<Rightarrow> 1000 | Some t \<Rightarrow> t),
                 engine = engine0\<rparr>)"

subsection \<open>Selection\<close>

text \<open>The right-hand side of \<^verbatim>\<open>uct_score = ...\<close> for a visited child, \<open>rn\<close> being
  \<^verbatim>\<open>root->n\<close>.\<close>

definition uct :: "('b, 'm, 'e) game \<Rightarrow> 'm Node \<Rightarrow> int \<Rightarrow> dbl \<Rightarrow> dbl" where
  "uct G child rn c =
     dbl_add_int (int_div (node_w child) (node_n child))
       (dbl_mul c (dbl_sqrt (dbl_div_int (dbl_log G rn) (node_n child))))"

text \<open>The score the loop body of \<^verbatim>\<open>select_child\<close> computes for the child at \<open>ch\<close>.\<close>

definition child_score :: "('b, 'm, 'e) game \<Rightarrow> 'm heap \<Rightarrow> nat \<Rightarrow> dbl \<Rightarrow> nat
    \<Rightarrow> dbl option" where
  "child_score G h rt c ch =
     (case deref h ch of
        None \<Rightarrow> None
      | Some child \<Rightarrow>
          if is_unvisited child then Some DBL_MAX
          else (case deref h rt of
                  None \<Rightarrow> None
                | Some r \<Rightarrow> Some (uct G child (node_n r) c)))"

text \<open>The for loop of \<^verbatim>\<open>select_child\<close> over the remaining children; the accumulator
  is \<^verbatim>\<open>max_score\<close> and \<^verbatim>\<open>best_child\<close>, the latter \<open>None\<close> while unassigned.\<close>

fun best_loop :: "('b, 'm, 'e) game \<Rightarrow> 'm heap \<Rightarrow> nat \<Rightarrow> dbl \<Rightarrow> nat list
    \<Rightarrow> dbl \<times> nat option \<Rightarrow> (dbl \<times> nat option) option" where
  "best_loop G h rt c [] acc = Some acc"
| "best_loop G h rt c (ch # cs) (max_score, best_child) =
     (case child_score G h rt c ch of
        None \<Rightarrow> None
      | Some uct_score \<Rightarrow>
          if dbl_gt uct_score max_score
          then best_loop G h rt c cs (uct_score, Some ch)
          else best_loop G h rt c cs (max_score, best_child))"

text \<open>\<^verbatim>\<open>select_child\<close>: the pointer returned (\<open>None\<close> is \<^verbatim>\<open>NULL\<close>) and the board
  \<^verbatim>\<open>state\<close> afterwards. The default argument \<^verbatim>\<open>sqrt(2.0)\<close> of \<^verbatim>\<open>c\<close> is
  \<open>dbl_sqrt (Fin 2)\<close>; no call in agent.h relies on it.\<close>

definition select_child :: "('b, 'm, 'e) game \<Rightarrow> 'm heap \<Rightarrow> 'b \<Rightarrow> nat \<Rightarrow> nat \<Rightarrow> dbl
    \<Rightarrow> (nat option \<times> 'b) option" where
  "select_child G h state node rt c =
     (case deref h node of
        None \<Rightarrow> None
      | Some nd \<Rightarrow>
          if length (node_children nd) = 0 then Some (None, state)
          else (case best_loop G h rt c (node_children nd) (Fin (- 1), None) of
                  None \<Rightarrow> None
                | Some (max_score, None) \<Rightarrow> None
                | Some (max_score, Some best_child) \<Rightarrow>
                    (case deref h best_child of
                       None \<Rightarrow> None
                     | Some bc \<Rightarrow>
                         Some (Some best_child, snd (board_place G state (node_move bc))))))"

text \<open>The while loop of \<^verbatim>\<open>select\<close>, \<open>node\<close> being its loop variable; the literal
  \<^verbatim>\<open>0.5\<close> is a double.\<close>

partial_function (option) select_loop :: "('b, 'm, 'e) game \<Rightarrow> 'm heap \<Rightarrow> nat \<Rightarrow> 'b \<Rightarrow> nat
    \<Rightarrow> (nat \<times> 'b) option" where
  "select_loop G h rt state node =
     (case deref h node of
        None \<Rightarrow> None
      | Some nd \<Rightarrow>
          if length (node_children nd) \<noteq> 0
          then (case select_child G h state node rt (Fin (1 / 2)) of
                  None \<Rightarrow> None
                | Some (None, state') \<Rightarrow> None
                | Some (Some node', state') \<Rightarrow> select_loop G h rt state' node')
          else Some (node, state))"

declare select_loop.simps [code]

definition select :: "('b, 'm, 'e) game \<Rightarrow> 'm heap \<Rightarrow> 'b \<Rightarrow> nat \<Rightarrow> (nat \<times> 'b) option" where
  "select G h state rt = select_loop G h rt state rt"

subsection \<open>Expansion\<close>

text \<open>The for loop of \<^verbatim>\<open>expand\<close> over the remaining moves. Every pass allocates a node,
  whether the move is legal or not; only a legal move's node is filled in and appended to
  \<^verbatim>\<open>node->children\<close>.\<close>

fun expand_loop :: "('b, 'm, 'e) game \<Rightarrow> 'b \<Rightarrow> nat \<Rightarrow> 'm list \<Rightarrow> 'm heap \<Rightarrow> 'm heap option" where
  "expand_loop G state node [] h = Some h"
| "expand_loop G state node (move # moves) h =
     (let newNode = length h;
          h1 = h @ [Node_new G]
      in case deref h1 node of
           None \<Rightarrow> None
         | Some nd \<Rightarrow>
             (case reverse_player (node_placer nd) of
                None \<Rightarrow> None
              | Some current_placer \<Rightarrow>
                  if fst (board_place G state move)
                  then let h2 = h1[newNode := (h1 ! newNode)\<lparr>node_move := move,
                                    node_placer := current_placer, node_parent := Some node\<rparr>];
                           h3 = h2[node := (h2 ! node)\<lparr>node_children :=
                                    node_children (h2 ! node) @ [newNode]\<rparr>]
                       in expand_loop G state node moves h3
                  else expand_loop G state node moves h1))"

text \<open>\<^verbatim>\<open>expand\<close>: its result, the agent (whose \<^verbatim>\<open>space\<close> and \<^verbatim>\<open>engine\<close> the shuffle
  changed) and the heap.\<close>

definition expand :: "('b, 'm, 'e) game \<Rightarrow> ('m, 'e) agent \<Rightarrow> 'm heap \<Rightarrow> 'b \<Rightarrow> nat
    \<Rightarrow> (bool \<times> ('m, 'e) agent \<times> 'm heap) option" where
  "expand G ag h state node =
     (let (sp, e) = std_shuffle G (space ag) (engine ag);
          ag' = ag\<lparr>space := sp, engine := e\<rparr>
      in case expand_loop G state node sp h of
           None \<Rightarrow> None
         | Some h' \<Rightarrow>
             (case deref h' node of
                None \<Rightarrow> None
              | Some nd \<Rightarrow>
                  Some (if length (node_children nd) = 0 then True else False, ag', h')))"

subsection \<open>Rollout\<close>

text \<open>The for loop of \<^verbatim>\<open>simulate\<close> over the remaining moves; the state is
  \<^verbatim>\<open>simulate_board\<close> and \<^verbatim>\<open>has_leagal_move\<close>.\<close>

fun simulate_pass :: "('b, 'm, 'e) game \<Rightarrow> 'm list \<Rightarrow> 'b \<times> bool \<Rightarrow> 'b \<times> bool" where
  "simulate_pass G [] (simulate_board, has_leagal_move) = (simulate_board, has_leagal_move)"
| "simulate_pass G (move # moves) (simulate_board, has_leagal_move) =
     (if fst (board_place G simulate_board move)
      then simulate_pass G moves (snd (board_place G simulate_board move), True)
      else simulate_pass G moves (simulate_board, has_leagal_move))"

text \<open>The while loop of \<^verbatim>\<open>simulate\<close>, entered with \<^verbatim>\<open>has_leagal_move\<close> true.\<close>

partial_function (option) simulate_loop :: "('b, 'm, 'e) game \<Rightarrow> ('m, 'e) agent \<Rightarrow> 'b
    \<Rightarrow> (('m, 'e) agent \<times> 'b) option" where
  "simulate_loop G ag simulate_board =
     (let (sp, e) = std_shuffle G (space ag) (engine ag);
          ag' = ag\<lparr>space := sp, engine := e\<rparr>;
          (simulate_board', has_leagal_move) = simulate_pass G sp (simulate_board, False)
      in if has_leagal_move then simulate_loop G ag' simulate_board'
         else Some (ag', simulate_board'))"

declare simulate_loop.simps [code]

text \<open>\<^verbatim>\<open>simulate\<close> (its \<^verbatim>\<open>node\<close> argument is unused).\<close>

definition simulate :: "('b, 'm, 'e) game \<Rightarrow> ('m, 'e) agent \<Rightarrow> 'b \<Rightarrow> nat
    \<Rightarrow> (int \<times> ('m, 'e) agent) option" where
  "simulate G ag state node =
     (case simulate_loop G ag state of
        None \<Rightarrow> None
      | Some (ag', simulate_board) \<Rightarrow>
          Some (if who_take_turn G simulate_board = who ag' then 0 else 1, ag'))"

subsection \<open>Backpropagation\<close>

text \<open>The while loop of \<^verbatim>\<open>backpropagation\<close>.\<close>

partial_function (option) backprop_loop :: "'m heap \<Rightarrow> nat option \<Rightarrow> int \<Rightarrow> 'm heap option" where
  "backprop_loop h node result =
     (case node of
        None \<Rightarrow> Some h
      | Some a \<Rightarrow>
          (case deref h a of
             None \<Rightarrow> None
           | Some nd \<Rightarrow>
               backprop_loop
                 (h[a := nd\<lparr>node_n := node_n nd + 1, node_w := node_w nd + result\<rparr>])
                 (node_parent nd) result))"

declare backprop_loop.simps [code]

definition backpropagation :: "'m heap \<Rightarrow> nat option \<Rightarrow> int \<Rightarrow> (bool \<times> 'm heap) option" where
  "backpropagation h node result =
     (if node = None then Some (False, h)
      else (case backprop_loop h node result of
              None \<Rightarrow> None
            | Some h' \<Rightarrow> Some (True, h')))"

subsection \<open>The search driver\<close>

text \<open>One pass of the for loop of \<^verbatim>\<open>take_action\<close>.\<close>

fun iteration :: "('b, 'm, 'e) game \<Rightarrow> 'b \<Rightarrow> nat \<Rightarrow> ('m, 'e) agent \<times> 'm heap
    \<Rightarrow> (('m, 'e) agent \<times> 'm heap) option" where
  "iteration G state rt (ag, h) =
     (case select G h state rt of
        None \<Rightarrow> None
      | Some (current_node, current_board) \<Rightarrow>
          (case deref h current_node of
             None \<Rightarrow> None
           | Some cn \<Rightarrow>
               (case (if node_n cn = 0
                      then (case expand G ag h current_board current_node of
                              None \<Rightarrow> None
                            | Some (t, ag1, h1) \<Rightarrow>
                                (case deref h1 current_node of
                                   None \<Rightarrow> None
                                 | Some cn1 \<Rightarrow>
                                     Some (ag1, h1,
                                       action_apply G (node_move cn1) current_board)))
                      else Some (ag, h, current_board)) of
                  None \<Rightarrow> None
                | Some (ag1, h1, current_board1) \<Rightarrow>
                    (case simulate G ag1 current_board1 current_node of
                       None \<Rightarrow> None
                     | Some (result, ag2) \<Rightarrow>
                         (case backpropagation h1 (Some current_node) result of
                            None \<Rightarrow> None
                          | Some (ok, h2) \<Rightarrow> Some (ag2, h2))))))"

text \<open>The for loop, \<open>k\<close> passes remaining.\<close>

fun search_loop :: "('b, 'm, 'e) game \<Rightarrow> 'b \<Rightarrow> nat \<Rightarrow> nat \<Rightarrow> ('m, 'e) agent \<times> 'm heap
    \<Rightarrow> (('m, 'e) agent \<times> 'm heap) option" where
  "search_loop G state rt 0 s = Some s"
| "search_loop G state rt (Suc k) s =
     (case iteration G state rt s of
        None \<Rightarrow> None
      | Some s' \<Rightarrow> search_loop G state rt k s')"

text \<open>\<^verbatim>\<open>take_action\<close> up to the end of its for loop: the root is allocated on the heap
  \<open>h0\<close> the call finds (nothing ever frees a node), and \<^verbatim>\<open>i < simulation_times\<close> holds
  for \<open>nat (simulation_times ag)\<close> values of \<^verbatim>\<open>i\<close>.\<close>

definition search :: "('b, 'm, 'e) game \<Rightarrow> ('m, 'e) agent \<Rightarrow> 'm heap \<Rightarrow> 'b
    \<Rightarrow> (('m, 'e) agent \<times> 'm heap) option" where
  "search G ag h0 state =
     (let rt = length h0;
          h = h0 @ [Node_new G]
      in case reverse_player (who ag) of
           None \<Rightarrow> None
         | Some p \<Rightarrow>
             search_loop G state rt (nat (simulation_times ag))
               (ag, h[rt := (h ! rt)\<lparr>node_placer := p\<rparr>]))"

text \<open>\<^verbatim>\<open>take_action\<close>: the action returned, the agent and the heap afterwards. The
  literal \<^verbatim>\<open>0.000000000001\<close> denotes the double nearest to it.\<close>

definition take_action :: "('b, 'm, 'e) game \<Rightarrow> ('m, 'e) agent \<Rightarrow> 'm heap \<Rightarrow> 'b
    \<Rightarrow> ('m action \<times> ('m, 'e) agent \<times> 'm heap) option" where
  "take_action G ag h0 state =
     (case search G ag h0 state of
        None \<Rightarrow> None
      | Some (ag', h) \<Rightarrow>
          (case select_child G h state (length h0) (length h0) (rnd (1 / 10 ^ 12)) of
             None \<Rightarrow> None
           | Some (None, current_board) \<Rightarrow> Some (Action_default, ag', h)
           | Some (Some best_node, current_board) \<Rightarrow>
               (case deref h best_node of
                  None \<Rightarrow> None
                | Some bn \<Rightarrow> Some (Action_place (node_move bn), ag', h))))"

subsection \<open>Predicates of the statements\<close>

text \<open>What \<open>rnd_to\<close> needs of the function that makes the scaled value an integer: an
  integer on one side of the argument stays on that side of the result. \<open>floor\<close>,
  \<open>ceiling\<close> and \<open>round_even\<close> are such functions.\<close>

definition int_rounding :: "(real \<Rightarrow> int) \<Rightarrow> bool" where
  "int_rounding r \<longleftrightarrow>
     (\<forall>z i. real_of_int i \<le> z \<longrightarrow> i \<le> r z) \<and> (\<forall>z i. z \<le> real_of_int i \<longrightarrow> r z \<le> i)"

text \<open>A double that is a finite number between two bounds, and a double that is neither
  NaN nor negative.\<close>

fun dbl_within :: "real \<Rightarrow> real \<Rightarrow> dbl \<Rightarrow> bool" where
  "dbl_within lo hi (Fin z) = (lo \<le> z \<and> z \<le> hi)"
| "dbl_within lo hi d = False"

fun dbl_nonneg :: "dbl \<Rightarrow> bool" where
  "dbl_nonneg (Fin z) = (0 \<le> z)"
| "dbl_nonneg PInf = True"
| "dbl_nonneg d = False"

text \<open>The score of a child whose score is defined.\<close>

definition score_of :: "('b, 'm, 'e) game \<Rightarrow> 'm heap \<Rightarrow> nat \<Rightarrow> dbl \<Rightarrow> nat \<Rightarrow> dbl" where
  "score_of G h rt c ch = the (child_score G h rt c ch)"

text \<open>Position \<open>i\<close> holds the first greatest score of \<open>ss\<close>: no earlier score is greater
  or equal, no score at all is greater.\<close>

definition first_best :: "dbl list \<Rightarrow> nat \<Rightarrow> bool" where
  "first_best ss i \<longleftrightarrow> i < length ss \<and>
     (\<forall>j<i. \<not> dbl_gt (ss ! j) (ss ! i) \<and> ss ! j \<noteq> ss ! i) \<and>
     (\<forall>k<length ss. \<not> dbl_gt (ss ! k) (ss ! i))"

text \<open>What the game must satisfy for a rollout to end and for the candidate moves to stay
  the same set: a legal placement lowers the measure \<open>mu\<close> (it fills a cell), and a
  shuffle permutes.\<close>

definition game_wf :: "('b, 'm, 'e) game \<Rightarrow> ('b \<Rightarrow> nat) \<Rightarrow> bool" where
  "game_wf G mu \<longleftrightarrow>
     (\<forall>b m. fst (board_place G b m) \<longrightarrow> mu (snd (board_place G b m)) < mu b) \<and>
     (\<forall>xs e. mset (fst (std_shuffle G xs e)) = mset xs)"

text \<open>The addresses \<^verbatim>\<open>expand\<close> links: one cell is allocated per candidate, from address
  \<open>a\<close> on, and the cells of the legal candidates become children.\<close>

fun new_addrs :: "('m \<Rightarrow> bool) \<Rightarrow> nat \<Rightarrow> 'm list \<Rightarrow> nat list" where
  "new_addrs legal a [] = []"
| "new_addrs legal a (m # ms) =
     (if legal m then a # new_addrs legal (Suc a) ms else new_addrs legal (Suc a) ms)"

text \<open>The node \<^verbatim>\<open>expand\<close> leaves in the cell of a candidate.\<close>

definition expanded_cell :: "('b, 'm, 'e) game \<Rightarrow> 'b \<Rightarrow> nat \<Rightarrow> piece_type \<Rightarrow> 'm \<Rightarrow> 'm Node" where
  "expanded_cell G state node p m =
     (if fst (board_place G state m)
      then (Node_new G)\<lparr>node_move := m, node_placer := p, node_parent := Some node\<rparr>
      else Node_new G)"

text \<open>One candidate of a rollout pass: placed when legal on the board as it stands.\<close>

definition place_if_legal :: "('b, 'm, 'e) game \<Rightarrow> 'b \<Rightarrow> 'm \<Rightarrow> 'b" where
  "place_if_legal G b m = (if fst (board_place G b m) then snd (board_place G b m) else b)"

text \<open>A rollout pass as the specification words it (\<open>apply the first legal one found\<close>,
  then enumerate again): the pass ends at the first legal candidate. This follows the
  specification, not agent.h, and is compared with \<open>simulate_pass\<close>.\<close>

fun first_legal_pass :: "('b, 'm, 'e) game \<Rightarrow> 'm list \<Rightarrow> 'b \<Rightarrow> 'b \<times> bool" where
  "first_legal_pass G [] b = (b, False)"
| "first_legal_pass G (m # ms) b =
     (if fst (board_place G b m) then (snd (board_place G b m), True)
      else first_legal_pass G ms b)"

text \<open>
  The shape of the tree \<^verbatim>\<open>take_action\<close> builds above its root \<open>rt\<close>; the cells below
  \<open>rt\<close> are what earlier calls left behind. A node is linked when it is the root or has
  a parent (a cell allocated for an illegal candidate has none). Children lie above
  their parent and point back to it, and a parent is a linked node below its child.
\<close>

definition linked :: "nat \<Rightarrow> 'm heap \<Rightarrow> nat \<Rightarrow> bool" where
  "linked rt h a \<longleftrightarrow> a = rt \<or> node_parent (h ! a) \<noteq> None"

definition ptr_ok :: "nat \<Rightarrow> 'm heap \<Rightarrow> bool" where
  "ptr_ok rt h \<longleftrightarrow> rt < length h \<and> node_parent (h ! rt) = None \<and>
     (\<forall>a c. rt \<le> a \<and> a < length h \<and> c \<in> set (node_children (h ! a)) \<longrightarrow>
        a < c \<and> c < length h \<and> node_parent (h ! c) = Some a) \<and>
     (\<forall>a p. rt \<le> a \<and> a < length h \<and> node_parent (h ! a) = Some p \<longrightarrow>
        rt \<le> p \<and> p < a \<and> linked rt h p)"

definition stats_ok :: "nat \<Rightarrow> 'm heap \<Rightarrow> bool" where
  "stats_ok rt h \<longleftrightarrow>
     (\<forall>a. rt \<le> a \<and> a < length h \<longrightarrow> 0 \<le> node_w (h ! a) \<and> node_w (h ! a) \<le> node_n (h ! a))"

definition placers_ok :: "nat \<Rightarrow> 'm heap \<Rightarrow> bool" where
  "placers_ok rt h \<longleftrightarrow> (\<forall>a. rt \<le> a \<and> a < length h \<longrightarrow> node_placer (h ! a) \<noteq> Empty)"

text \<open>No node of the tree has children yet.\<close>

definition unexpanded :: "nat \<Rightarrow> 'm heap \<Rightarrow> bool" where
  "unexpanded rt h \<longleftrightarrow> (\<forall>a. rt \<le> a \<and> a < length h \<longrightarrow> node_children (h ! a) = [])"

text \<open>What holds of the heap at the head of the for loop of \<^verbatim>\<open>take_action\<close>.\<close>

definition search_inv :: "nat \<Rightarrow> 'm heap \<Rightarrow> bool" where
  "search_inv rt h \<longleftrightarrow> ptr_ok rt h \<and> stats_ok rt h \<and> placers_ok rt h \<and>
     (unexpanded rt h \<or> 1 \<le> node_n (h ! rt))"

text \<open>The descent from a node that moves, at every node with children, to the child
  \<^verbatim>\<open>select_child\<close> returns under the constant \<open>c\<close> (advancing the board as it does), down
  to the first node without children.\<close>

inductive descent :: "('b, 'm, 'e) game \<Rightarrow> 'm heap \<Rightarrow> nat \<Rightarrow> dbl \<Rightarrow> nat \<times> 'b \<Rightarrow> nat \<times> 'b \<Rightarrow> bool"
  for G h rt c where
  stop: "deref h node = Some nd \<Longrightarrow> node_children nd = [] \<Longrightarrow>
     descent G h rt c (node, state) (node, state)"
| step: "deref h node = Some nd \<Longrightarrow> node_children nd \<noteq> [] \<Longrightarrow>
     select_child G h state node rt c = Some (Some node', state') \<Longrightarrow>
     descent G h rt c (node', state') leaf \<Longrightarrow>
     descent G h rt c (node, state) leaf"

text \<open>The tree of a call seen from its root \<open>r\<close>: the cells from \<open>r\<close> on, with every
  pointer counted from \<open>r\<close>. Two heaps with the same view hold the same tree at different
  addresses.\<close>

definition rebase :: "nat \<Rightarrow> 'm Node \<Rightarrow> 'm Node" where
  "rebase r nd = nd\<lparr>node_parent := map_option (\<lambda>p. p - r) (node_parent nd),
     node_children := map (\<lambda>c. c - r) (node_children nd)\<rparr>"

definition tree_view :: "nat \<Rightarrow> 'm heap \<Rightarrow> 'm heap" where
  "tree_view r h = map (rebase r) (drop r h)"

text \<open>The decisions of one agent on a sequence of boards: \<^verbatim>\<open>take_action\<close> called once
  per board, each call starting from the agent and the heap the call before left.\<close>

fun decisions :: "('b, 'm, 'e) game \<Rightarrow> ('m, 'e) agent \<Rightarrow> 'm heap \<Rightarrow> 'b list
    \<Rightarrow> ('m action list \<times> ('m, 'e) agent \<times> 'm heap) option" where
  "decisions G ag h [] = Some ([], ag, h)"
| "decisions G ag h (b # bs) =
     (case take_action G ag h b of
        None \<Rightarrow> None
      | Some (a, ag', h') \<Rightarrow>
          (case decisions G ag' h' bs of
             None \<Rightarrow> None
           | Some (as, ag'', h'') \<Rightarrow> Some (a # as, ag'', h'')))"

subsection \<open>A three-cell game for concrete runs\<close>

text \<open>The board is the list of occupied cells, latest first; a cell below 3 that is free
  may be taken; the sides alternate; a shuffle reverses the vector and counts in the
  engine, which the seed \<open>s\<close> sets to \<open>nat s\<close>; \<^verbatim>\<open>log\<close> rounds down.\<close>

definition toy_game :: "(nat list, nat, nat) game" where
  "toy_game = \<lparr>
     board_place = (\<lambda>b m. if m < 3 \<and> m \<notin> set b then (True, m # b) else (False, b)),
     action_apply = (\<lambda>m b. if m < 3 \<and> m \<notin> set b then m # b else b),
     who_take_turn = (\<lambda>b. if even (length b) then Black else White),
     std_shuffle = (\<lambda>xs e. (rev xs, Suc e)),
     default_place = 7,
     place_of = (\<lambda>i w. i),
     board_cells = 3,
     default_engine = 0,
     seed_engine = (\<lambda>s. nat s),
     log_rounds_up = (\<lambda>x. False)\<rparr>"

definition toy_mu :: "nat list \<Rightarrow> nat" where
  "toy_mu b = card ({..<3} - set b)"

definition toy_agent :: "int \<Rightarrow> (nat, nat) agent" where
  "toy_agent t = \<lparr>space = [0, 1, 2], who = Black, simulation_times = t, engine = 0\<rparr>"

text \<open>The heap two passes of the search loop leave on the three-cell game, from the empty
  board: the root at 0 with its three children, the first of them visited once and
  expanded (its third candidate, cell 2, was taken: node 6 is allocated and never linked).\<close>

definition demo_heap :: "nat heap" where
  "demo_heap =
    [\<lparr>node_parent = None, node_children = [1, 2, 3], node_placer = White, node_move = 7,
      node_n = 2, node_w = 2\<rparr>,
     \<lparr>node_parent = Some 0, node_children = [4, 5], node_placer = Black, node_move = 2,
      node_n = 1, node_w = 1\<rparr>,
     \<lparr>node_parent = Some 0, node_children = [], node_placer = Black, node_move = 1,
      node_n = 0, node_w = 0\<rparr>,
     \<lparr>node_parent = Some 0, node_children = [], node_placer = Black, node_move = 0,
      node_n = 0, node_w = 0\<rparr>,
     \<lparr>node_parent = Some 1, node_children = [], node_placer = White, node_move = 0,
      node_n = 0, node_w = 0\<rparr>,
     \<lparr>node_parent = Some 1, node_children = [], node_placer = White, node_move = 1,
      node_n = 0, node_w = 0\<rparr>,
     \<lparr>node_parent = None, node_children = [], node_placer = Black, node_move = 7,
      node_n = 0, node_w = 0\<rparr>]"

text \<open>A tree for \<^verbatim>\<open>select\<close> and \<^verbatim>\<open>select_child\<close>, which are public members and take
  any tree: the root at 0 with eleven visits, a child at 1 visited nine times and won
  each time, a child at 2 visited once and lost.\<close>

definition ucb_heap :: "nat heap" where
  "ucb_heap =
    [\<lparr>node_parent = None, node_children = [1, 2], node_placer = White, node_move = 7,
      node_n = 11, node_w = 9\<rparr>,
     \<lparr>node_parent = Some 0, node_children = [], node_placer = Black, node_move = 0,
      node_n = 9, node_w = 9\<rparr>,
     \<lparr>node_parent = Some 0, node_children = [], node_placer = Black, node_move = 1,
      node_n = 1, node_w = 0\<rparr>]"

text \<open>A root visited 2000000002 times whose two children have won every visit, the
  first one visited 1000000001 times and the second 1000000000 times.\<close>

definition tie_heap :: "nat heap" where
  "tie_heap =
    [\<lparr>node_parent = None, node_children = [1, 2], node_placer = White, node_move = 7,
      node_n = 2000000002, node_w = 0\<rparr>,
     \<lparr>node_parent = Some 0, node_children = [], node_placer = Black, node_move = 0,
      node_n = 1000000001, node_w = 1000000001\<rparr>,
     \<lparr>node_parent = Some 0, node_children = [], node_placer = Black, node_move = 1,
      node_n = 1000000000, node_w = 1000000000\<rparr>]"

section \<open>Properties\<close>

subsection \<open>The comparison of doubles is a strict order\<close>

lemma dbl_gt_irrefl: "\<not> dbl_gt a a"
  by (cases a) auto

lemma dbl_gt_trans: "dbl_gt a b \<Longrightarrow> dbl_gt b c \<Longrightarrow> dbl_gt a c"
  by (cases a; cases b; cases c) auto

lemma dbl_gt_asym: "dbl_gt a b \<Longrightarrow> \<not> dbl_gt b a"
  by (cases a; cases b) auto

subsection \<open>Rounding\<close>

lemma int_rounding_floor: "int_rounding floor"
  by (auto simp: int_rounding_def le_floor_iff floor_le_iff)

lemma int_rounding_ceiling: "int_rounding ceiling"
  by (auto simp: int_rounding_def ceiling_le_iff le_ceiling_iff)

lemma int_rounding_round_even: "int_rounding round_even"
  unfolding int_rounding_def
proof (intro conjI allI impI)
  fix z :: real and i :: int
  assume "real_of_int i \<le> z"
  then have "i \<le> \<lfloor>z\<rfloor>" by (simp add: le_floor_iff)
  then show "i \<le> round_even z" by (simp add: round_even_def Let_def)
next
  fix z :: real and i :: int
  assume le: "z \<le> real_of_int i"
  show "round_even z \<le> i"
  proof (cases "z = real_of_int i")
    case True
    then show ?thesis by (simp add: round_even_def)
  next
    case False
    with le have "z < real_of_int i" by simp
    then have "\<lfloor>z\<rfloor> < i" by (simp add: floor_less_iff)
    then show ?thesis by (simp add: round_even_def Let_def)
  qed
qed

lemma int_rounding_log: "int_rounding (if up then ceiling else floor)"
  by (simp add: int_rounding_floor int_rounding_ceiling)

lemma binade_bounds:
  assumes "x \<noteq> 0"
  shows "2 powi (binade x) \<le> \<bar>x\<bar>" and "\<bar>x\<bar> < 2 powi (binade x + 1)"
proof -
  have pos: "0 < \<bar>x\<bar>" using assms by simp
  have "\<lfloor>log 2 \<bar>x\<bar>\<rfloor> = binade x" by (simp add: binade_def)
  then have "2 powr real_of_int (binade x) \<le> \<bar>x\<bar> \<and> \<bar>x\<bar> < 2 powr real_of_int (binade x + 1)"
    using floor_log_eq_powr_iff [OF pos, of 2 "binade x"] by simp
  moreover have "(2 :: real) powr real_of_int (binade x) = 2 powi (binade x)"
    by (rule powr_real_of_int') simp_all
  moreover have "(2 :: real) powr real_of_int (binade x + 1) = 2 powi (binade x + 1)"
    by (rule powr_real_of_int') simp_all
  ultimately show "2 powi (binade x) \<le> \<bar>x\<bar>" and "\<bar>x\<bar> < 2 powi (binade x + 1)"
    by simp_all
qed

lemma binade_le:
  assumes "x \<noteq> 0" and "\<bar>x\<bar> \<le> 2 powi K"
  shows "binade x \<le> K"
proof (rule ccontr)
  assume "\<not> binade x \<le> K"
  then have "K + 1 \<le> binade x" by simp
  then have "(2 :: real) powi (K + 1) \<le> 2 powi (binade x)"
    by (intro power_int_increasing) simp_all
  moreover have "(2 :: real) powi K < 2 powi (K + 1)"
    by (intro power_int_strict_increasing) simp_all
  ultimately show False using binade_bounds(1) [OF assms(1)] assms(2) by linarith
qed

lemma binade_ge:
  assumes "2 powi K \<le> \<bar>x\<bar>"
  shows "K \<le> binade x"
proof (rule ccontr)
  assume "\<not> K \<le> binade x"
  then have "binade x + 1 \<le> K" by simp
  then have "(2 :: real) powi (binade x + 1) \<le> 2 powi K"
    by (intro power_int_increasing) simp_all
  moreover have "x \<noteq> 0"
  proof
    assume "x = 0"
    with assms have "(2 :: real) powi K \<le> 0" by simp
    moreover have "(0 :: real) < 2 powi K" by (rule zero_less_power_int) simp
    ultimately show False by linarith
  qed
  ultimately show False using binade_bounds(2) [of x] assms by linarith
qed

lemma quantum_pos: "0 < quantum x"
  by (simp add: quantum_def)

lemma pow2_ratio_int:
  assumes "j \<le> g"
  shows "(2 :: real) powi g = real_of_int (2 ^ nat (g - j)) * 2 powi j"
proof -
  have "(2 :: real) powi g = 2 powi ((g - j) + j)" by simp
  also have "\<dots> = 2 powi (g - j) * 2 powi j" by (subst power_int_add) simp_all
  also have "(2 :: real) powi (g - j) = 2 ^ nat (g - j)"
    using assms by (simp add: power_int_def)
  finally show ?thesis by simp
qed

lemma on_quantum:
  assumes "x \<noteq> 0" and "\<bar>x\<bar> \<le> 2 powi K" and "- 1022 \<le> K"
    and "\<exists>i::int. a = real_of_int i * 2 powi (K - 52)"
  shows "\<exists>i::int. a = real_of_int i * quantum x"
proof -
  from assms(4) obtain i :: int where a: "a = real_of_int i * 2 powi (K - 52)" by blast
  let ?j = "max (binade x) (- 1022) - 52"
  have "?j \<le> K - 52" using binade_le [OF assms(1,2)] assms(3) by simp
  from pow2_ratio_int [OF this]
  have "a = real_of_int (i * 2 ^ nat (K - 52 - ?j)) * quantum x"
    by (simp add: a quantum_def)
  then show ?thesis by blast
qed

lemma rnd_to_value_ge:
  assumes r: "int_rounding r" and a: "a = real_of_int i * quantum x" and le: "a \<le> x"
  shows "a \<le> real_of_int (r (x / quantum x)) * quantum x"
proof -
  have "real_of_int i \<le> x / quantum x"
    using le a quantum_pos [of x] by (simp add: pos_le_divide_eq)
  with r have "i \<le> r (x / quantum x)" by (simp add: int_rounding_def)
  then have "real_of_int i \<le> real_of_int (r (x / quantum x))" by simp
  then show ?thesis using quantum_pos [of x] by (simp add: a)
qed

lemma rnd_to_value_le:
  assumes r: "int_rounding r" and a: "a = real_of_int i * quantum x" and le: "x \<le> a"
  shows "real_of_int (r (x / quantum x)) * quantum x \<le> a"
proof -
  have "x / quantum x \<le> real_of_int i"
    using le a quantum_pos [of x] by (simp add: pos_divide_le_eq)
  with r have "r (x / quantum x) \<le> i" by (simp add: int_rounding_def)
  then have "real_of_int (r (x / quantum x)) \<le> real_of_int i" by simp
  then show ?thesis using quantum_pos [of x] by (simp add: a)
qed

lemma max_finite_pos: "0 < max_finite"
  by (simp add: max_finite_def)

lemma pow2_below_max:
  assumes "K \<le> 1023"
  shows "(2 :: real) powi K < max_finite"
proof -
  have "(2 :: real) powi K \<le> 2 powi 1023" using assms by (intro power_int_increasing) simp_all
  also have "(2 :: real) powi 1023 = 2 ^ 52 * 2 ^ 971" by (simp add: power_add [symmetric])
  also have "\<dots> < (2 ^ 53 - 1) * 2 ^ 971" by simp
  finally show ?thesis by (simp add: max_finite_def)
qed

lemma rnd_to_zero:
  assumes "int_rounding r"
  shows "rnd_to r 0 = Fin 0"
proof -
  have "r 0 \<le> 0" "0 \<le> r 0" using assms by (simp_all add: int_rounding_def)
  then have "r 0 = 0" by simp
  then show ?thesis using max_finite_pos by (simp add: rnd_to_def)
qed

text \<open>The rounded value stays between two doubles that enclose the exact one: \<open>lo\<close> and
  \<open>hi\<close> are multiples of the finest spacing of the doubles up to \<open>2 powi K\<close>.\<close>

lemma rnd_to_bounds:
  assumes r: "int_rounding r" and K: "- 1022 \<le> K" "K \<le> 1023"
    and lo: "lo \<le> x" "- (2 powi K) \<le> lo" "\<exists>i::int. lo = real_of_int i * 2 powi (K - 52)"
    and hi: "x \<le> hi" "hi \<le> 2 powi K" "\<exists>i::int. hi = real_of_int i * 2 powi (K - 52)"
  shows "dbl_within lo hi (rnd_to r x)"
proof (cases "x = 0")
  case True
  with lo(1) hi(1) rnd_to_zero [OF r] show ?thesis by simp
next
  case False
  let ?y = "real_of_int (r (x / quantum x)) * quantum x"
  have ax: "\<bar>x\<bar> \<le> 2 powi K" using lo(1,2) hi(1,2) by linarith
  from on_quantum [OF False ax K(1) lo(3)] obtain i :: int where
    i: "lo = real_of_int i * quantum x" by blast
  from on_quantum [OF False ax K(1) hi(3)] obtain j :: int where
    j: "hi = real_of_int j * quantum x" by blast
  have l: "lo \<le> ?y" using r i lo(1) by (rule rnd_to_value_ge)
  have h: "?y \<le> hi" using r j hi(1) by (rule rnd_to_value_le)
  have "\<bar>?y\<bar> \<le> 2 powi K" using l h lo(2) hi(2) by linarith
  with pow2_below_max [OF K(2)] have "\<not> max_finite < ?y" "\<not> ?y < - max_finite" by linarith+
  then have "rnd_to r x = Fin ?y" by (simp add: rnd_to_def)
  with l h show ?thesis by simp
qed

lemma dbl_withinE:
  assumes "dbl_within lo hi d"
  obtains z where "d = Fin z" and "lo \<le> z" and "z \<le> hi"
  using assms by (cases d) auto

lemma grid_pow2: "\<exists>i::int. (2 :: real) powi K = real_of_int i * 2 powi (K - 52)"
  using pow2_ratio_int [of "K - 52" K] by auto

lemma grid_pow2_neg: "\<exists>i::int. - ((2 :: real) powi K) = real_of_int i * 2 powi (K - 52)"
proof -
  from grid_pow2 [of K] obtain i :: int where "(2 :: real) powi K = real_of_int i * 2 powi (K - 52)"
    by blast
  then have "- ((2 :: real) powi K) = real_of_int (- i) * 2 powi (K - 52)" by simp
  then show ?thesis by blast
qed

lemma grid_zero: "\<exists>i::int. (0 :: real) = real_of_int i * g"
  by (rule exI [of _ 0]) simp

lemma rnd_to_pow2:
  assumes "int_rounding r" and "- 1022 \<le> K" "K \<le> 1023" and "0 \<le> x" and "x \<le> 2 powi K"
  shows "dbl_within 0 (2 powi K) (rnd_to r x)"
proof (rule rnd_to_bounds [where K = K])
  show "\<exists>i::int. (0 :: real) = real_of_int i * 2 powi (K - 52)" by (rule grid_zero)
  show "\<exists>i::int. (2 :: real) powi K = real_of_int i * 2 powi (K - 52)" by (rule grid_pow2)
qed (use assms in simp_all)

lemma rnd_to_nonneg:
  assumes "int_rounding r" and "0 \<le> x"
  shows "dbl_nonneg (rnd_to r x)"
proof -
  let ?y = "real_of_int (r (x / quantum x)) * quantum x"
  have "real_of_int 0 \<le> x / quantum x" using assms(2) quantum_pos [of x] by simp
  with assms(1) have "0 \<le> r (x / quantum x)" unfolding int_rounding_def by blast
  then have "0 \<le> ?y" using quantum_pos [of x] by simp
  then show ?thesis using max_finite_pos by (simp add: rnd_to_def Let_def)
qed

lemma rnd_to_nonpos:
  assumes "int_rounding r" and "x \<le> 0"
  shows "\<not> dbl_gt (rnd_to r x) (Fin 0)"
proof -
  let ?y = "real_of_int (r (x / quantum x)) * quantum x"
  have "x / quantum x \<le> real_of_int 0" using assms(2) quantum_pos [of x]
    by (simp add: divide_le_0_iff)
  with assms(1) have "r (x / quantum x) \<le> 0" unfolding int_rounding_def by blast
  then have "?y \<le> 0" using quantum_pos [of x] by (simp add: mult_le_0_iff)
  then show ?thesis using max_finite_pos by (simp add: rnd_to_def Let_def)
qed

lemma not_gt_mono: "\<not> dbl_gt d (Fin a) \<Longrightarrow> a \<le> b \<Longrightarrow> \<not> dbl_gt d (Fin b)"
  by (cases d) auto

lemma rnd_to_upper:
  assumes r: "int_rounding r" and K: "- 1022 \<le> K" "K \<le> 1023" and le: "x \<le> 2 powi K"
  shows "\<not> dbl_gt (rnd_to r x) (Fin (2 powi K))"
proof (cases "- (2 powi K) \<le> x")
  case True
  have "dbl_within (- (2 powi K)) (2 powi K) (rnd_to r x)"
  proof (rule rnd_to_bounds [where K = K])
    show "\<exists>i::int. - ((2 :: real) powi K) = real_of_int i * 2 powi (K - 52)"
      by (rule grid_pow2_neg)
    show "\<exists>i::int. (2 :: real) powi K = real_of_int i * 2 powi (K - 52)" by (rule grid_pow2)
  qed (use r K True le in simp_all)
  then show ?thesis by (rule dbl_withinE) simp
next
  case False
  moreover have "(0 :: real) \<le> 2 powi K" by simp
  ultimately have "x \<le> 0" by linarith
  from rnd_to_nonpos [OF r this] \<open>(0 :: real) \<le> 2 powi K\<close> show ?thesis by (rule not_gt_mono)
qed

text \<open>Bounds of small magnitude, as concrete scores have them.\<close>

lemma rnd_to_small:
  assumes r: "int_rounding r" and x: "lo \<le> x" "x \<le> hi" and rng: "- 4 \<le> lo" "hi \<le> 4"
    and g: "lo * 2 ^ 50 \<in> \<int>" "hi * 2 ^ 50 \<in> \<int>"
  shows "dbl_within lo hi (rnd_to r x)"
proof -
  have grid: "\<exists>i::int. a = real_of_int i * 2 powi (2 - 52)" if "a * 2 ^ 50 \<in> \<int>" for a :: real
  proof -
    from that obtain i :: int where "a * 2 ^ 50 = real_of_int i" by (auto elim: Ints_cases)
    then have "a = real_of_int i * 2 powi (- 50)"
      by (simp add: power_int_minus field_simps)
    then show ?thesis by auto
  qed
  show ?thesis
  proof (rule rnd_to_bounds [where K = 2])
    show "\<exists>i::int. lo = real_of_int i * 2 powi (2 - 52)" by (rule grid [OF g(1)])
    show "\<exists>i::int. hi = real_of_int i * 2 powi (2 - 52)" by (rule grid [OF g(2)])
  qed (use r x rng in simp_all)
qed

text \<open>The rounding at the places where binary64 is known by heart: inside a binade the
  value is scaled by the spacing of that binade; a tie goes to the even neighbour; the
  largest finite double is a double, and from \<open>2 powi 1024\<close> on the result is an
  infinity; below \<open>2 powi - 1022\<close> the spacing is that of the subnormal numbers.\<close>

lemma binade_eq:
  assumes "2 powi K \<le> \<bar>x\<bar>" and "\<bar>x\<bar> < 2 powi (K + 1)"
  shows "binade x = K"
proof -
  have nz: "x \<noteq> 0"
  proof
    assume "x = 0"
    with assms(1) have "(2 :: real) powi K \<le> 0" by simp
    moreover have "(0 :: real) < 2 powi K" by (rule zero_less_power_int) simp
    ultimately show False by linarith
  qed
  from assms(1) have "K \<le> binade x" by (rule binade_ge)
  moreover have "binade x < K + 1"
  proof (rule ccontr)
    assume "\<not> binade x < K + 1"
    then have "(2 :: real) powi (K + 1) \<le> 2 powi (binade x)"
      by (intro power_int_increasing) simp_all
    with binade_bounds(1) [OF nz] assms(2) show False by linarith
  qed
  ultimately show ?thesis by simp
qed

lemma rnd_eval:
  assumes "2 powi K \<le> \<bar>x\<bar>" and "\<bar>x\<bar> < 2 powi (K + 1)" and "- 1022 \<le> K"
    and "round_even (x / 2 powi (K - 52)) = m"
    and "\<bar>real_of_int m * 2 powi (K - 52)\<bar> \<le> max_finite"
  shows "rnd x = Fin (real_of_int m * 2 powi (K - 52))"
proof -
  have "binade x = K" using assms(1,2) by (rule binade_eq)
  then have q: "quantum x = 2 powi (K - 52)" using assms(3) by (simp add: quantum_def)
  from assms(5) have "\<not> max_finite < real_of_int m * 2 powi (K - 52)"
    "\<not> real_of_int m * 2 powi (K - 52) < - max_finite" by linarith+
  then show ?thesis using assms(4) by (simp add: rnd_def rnd_to_def q Let_def)
qed

lemma round_even_of_int: "round_even (real_of_int i) = i"
  by (simp add: round_even_def)

lemma quantum_subnormal:
  assumes "x \<noteq> 0" and "\<bar>x\<bar> < 2 powi (- 1022)"
  shows "quantum x = 2 powi (- 1074)"
proof -
  have "binade x \<le> - 1022" using assms by (intro binade_le) simp_all
  then show ?thesis by (simp add: quantum_def max_def)
qed

lemma rnd_overflow:
  assumes "2 powi 1024 \<le> x"
  shows "rnd x = PInf"
proof -
  have pos: "(0 :: real) < 2 powi 1024" by (rule zero_less_power_int) simp
  with assms have x: "0 < x" "x \<noteq> 0" "\<bar>x\<bar> = x" by simp_all
  from assms x(3) have b: "1024 \<le> binade x" by (intro binade_ge) simp
  then have q: "quantum x = 2 powi (binade x - 52)" by (simp add: quantum_def max_def)
  have "real_of_int (2 ^ 52) * quantum x = 2 powi (binade x)"
    using pow2_ratio_int [of "binade x - 52" "binade x"] by (simp add: q)
  also have "\<dots> \<le> x" using binade_bounds(1) [OF x(2)] x(3) by simp
  finally have "real_of_int (2 ^ 52) \<le> x / quantum x"
    using quantum_pos [of x] by (simp add: pos_le_divide_eq)
  with int_rounding_round_even have "2 ^ 52 \<le> round_even (x / quantum x)"
    unfolding int_rounding_def by blast
  then have "real_of_int (2 ^ 52) \<le> real_of_int (round_even (x / quantum x))"
    by (simp only: of_int_le_iff)
  then have "real_of_int (2 ^ 52) * quantum x \<le> real_of_int (round_even (x / quantum x)) * quantum x"
    using quantum_pos [of x] by (intro mult_right_mono) simp_all
  moreover have "real_of_int (2 ^ 52) * quantum x = 2 powi (binade x)"
    using pow2_ratio_int [of "binade x - 52" "binade x"] by (simp add: q)
  moreover have "(2 :: real) powi 1024 \<le> 2 powi (binade x)"
    using b by (intro power_int_increasing) simp_all
  moreover have "max_finite < 2 powi 1024"
  proof -
    have "(2 ^ 53 - 1) * (2 :: real) powi 971 < 2 ^ 53 * 2 powi 971"
      by (intro mult_strict_right_mono) simp_all
    also have "\<dots> = 2 powi 1024" by (simp add: power_add [symmetric])
    finally show ?thesis by (simp add: max_finite_def)
  qed
  ultimately have "max_finite < real_of_int (round_even (x / quantum x)) * quantum x"
    by linarith
  then show ?thesis by (simp add: rnd_def rnd_to_def Let_def)
qed

lemma rnd_ties:
  "rnd (1 + 1 / 2 ^ 53) = Fin 1"
  "rnd (1 + 3 / 2 ^ 53) = Fin (1 + 1 / 2 ^ 51)"
proof -
  have "round_even ((1 + 1 / 2 ^ 53) / 2 powi (0 - 52)) = 2 ^ 52"
    by (simp add: round_even_def power_int_minus_divide Let_def)
  from rnd_eval [OF _ _ _ this] show "rnd (1 + 1 / 2 ^ 53) = Fin 1"
    by (simp add: power_int_minus_divide max_finite_def)
  have "round_even ((1 + 3 / 2 ^ 53) / 2 powi (0 - 52)) = 2 ^ 52 + 2"
    by (simp add: round_even_def power_int_minus_divide Let_def)
  from rnd_eval [OF _ _ _ this] show "rnd (1 + 3 / 2 ^ 53) = Fin (1 + 1 / 2 ^ 51)"
    by (simp add: power_int_minus_divide max_finite_def)
qed

lemma rnd_max_finite: "rnd max_finite = Fin max_finite"
proof -
  have m: "max_finite = (2 ^ 53 - 1) * 2 powi 971" by (simp add: max_finite_def)
  have l: "2 powi 1023 \<le> \<bar>max_finite\<bar>"
  proof -
    have "(2 :: real) powi 1023 = 2 ^ 52 * 2 powi 971" by (simp add: power_add [symmetric])
    also have "\<dots> \<le> (2 ^ 53 - 1) * 2 powi 971" by (intro mult_right_mono) simp_all
    finally show ?thesis using max_finite_pos by (simp add: m)
  qed
  have u: "\<bar>max_finite\<bar> < 2 powi (1023 + 1)"
  proof -
    have "(2 ^ 53 - 1) * (2 :: real) powi 971 < 2 ^ 53 * 2 powi 971"
      by (intro mult_strict_right_mono) simp_all
    also have "\<dots> = 2 powi (1023 + 1)" by (simp add: power_add [symmetric])
    finally show ?thesis using max_finite_pos by (simp add: m)
  qed
  have "max_finite / 2 powi (1023 - 52) = real_of_int (2 ^ 53 - 1)" by (simp add: m)
  then have "round_even (max_finite / 2 powi (1023 - 52)) = 2 ^ 53 - 1"
    by (simp only: round_even_def Let_def floor_of_int) simp
  from rnd_eval [OF l u _ this] show ?thesis
    using max_finite_pos by (simp add: m)
qed

text \<open>A sum that exceeds 1 by more than half the spacing of the doubles at 1 and by
  less than one and a half times that spacing rounds to the double that follows 1.\<close>

lemma rnd_one_plus_ulp:
  assumes "1 / 2 ^ 53 < t" and "t < 3 / 2 ^ 53"
  shows "rnd (1 + t) = Fin (1 + 1 / 2 ^ 52)"
proof -
  have t0: "0 < t" using assms(1) by (rule less_trans [rotated]) simp
  have t1: "t < 1" using assms(2) by (rule less_trans) simp
  define z where "z = (1 + t) / 2 powi (0 - 52)"
  have s: "z = 2 ^ 52 + t * 2 ^ 52" by (simp add: z_def power_int_minus_divide algebra_simps)
  have lo: "1 / 2 < t * 2 ^ 52" and hi: "t * 2 ^ 52 < 3 / 2"
    using assms by (simp_all add: field_simps)
  have r: "round_even z = 2 ^ 52 + 1"
  proof (cases "t * 2 ^ 52 < 1")
    case True
    have fl: "\<lfloor>z\<rfloor> = 2 ^ 52"
      unfolding s by (rule floor_unique) (use True lo in simp_all)
    have "1 / 2 < z - real_of_int \<lfloor>z\<rfloor>" unfolding fl using lo by (simp add: s)
    then show ?thesis by (simp add: round_even_def Let_def fl)
  next
    case False
    have fl: "\<lfloor>z\<rfloor> = 2 ^ 52 + 1"
      unfolding s by (rule floor_unique) (use False hi in simp_all)
    have "z - real_of_int \<lfloor>z\<rfloor> < 1 / 2" unfolding fl using hi by (simp add: s)
    then show ?thesis by (simp add: round_even_def Let_def fl)
  qed
  have "rnd (1 + t) = Fin (real_of_int (2 ^ 52 + 1) * 2 powi (0 - 52))"
  proof (rule rnd_eval)
    show "2 powi 0 \<le> \<bar>1 + t\<bar>" using t0 by simp
    show "\<bar>1 + t\<bar> < 2 powi (0 + 1)" using t0 t1 by simp
    show "round_even ((1 + t) / 2 powi (0 - 52)) = 2 ^ 52 + 1" using r by (simp only: z_def)
    show "\<bar>real_of_int (2 ^ 52 + 1) * 2 powi (0 - 52)\<bar> \<le> max_finite"
      by (simp add: power_int_minus_divide max_finite_def)
  qed simp
  then show ?thesis by (simp add: power_int_minus_divide)
qed

subsection \<open>The operations on doubles\<close>

lemma dbl_nonneg_gt: "dbl_nonneg d \<Longrightarrow> dbl_gt d (Fin (- 1))"
  by (cases d) auto

lemma rnd_nonneg: "0 \<le> x \<Longrightarrow> dbl_nonneg (rnd x)"
  unfolding rnd_def by (rule rnd_to_nonneg [OF int_rounding_round_even])

lemma rnd_pow2:
  "- 1022 \<le> K \<Longrightarrow> K \<le> 1023 \<Longrightarrow> 0 \<le> x \<Longrightarrow> x \<le> 2 powi K \<Longrightarrow> dbl_within 0 (2 powi K) (rnd x)"
  unfolding rnd_def by (rule rnd_to_pow2 [OF int_rounding_round_even])

lemma rnd_upper:
  "- 1022 \<le> K \<Longrightarrow> K \<le> 1023 \<Longrightarrow> x \<le> 2 powi K \<Longrightarrow> \<not> dbl_gt (rnd x) (Fin (2 powi K))"
  unfolding rnd_def by (rule rnd_to_upper [OF int_rounding_round_even])

lemma rnd_small:
  "lo \<le> x \<Longrightarrow> x \<le> hi \<Longrightarrow> - 4 \<le> lo \<Longrightarrow> hi \<le> 4 \<Longrightarrow> lo * 2 ^ 50 \<in> \<int> \<Longrightarrow> hi * 2 ^ 50 \<in> \<int> \<Longrightarrow>
   dbl_within lo hi (rnd x)"
  unfolding rnd_def by (rule rnd_to_small [OF int_rounding_round_even])

lemma dbl_log_nonneg: "1 \<le> k \<Longrightarrow> dbl_nonneg (dbl_log G k)"
  by (simp add: dbl_log_def rnd_to_nonneg [OF int_rounding_log])

lemma dbl_log_small:
  assumes "1 \<le> k" and "lo \<le> ln (real_of_int k)" "ln (real_of_int k) \<le> hi"
    and "- 4 \<le> lo" "hi \<le> 4" and "lo * 2 ^ 50 \<in> \<int>" "hi * 2 ^ 50 \<in> \<int>"
  shows "dbl_within lo hi (dbl_log G k)"
  using assms(1) rnd_to_small [OF int_rounding_log assms(2-7)] by (simp add: dbl_log_def)

lemma dbl_log_int:
  assumes "1 \<le> k" and "k < 2 ^ 31"
  shows "dbl_within 0 (2 powi 32) (dbl_log G k)"
proof -
  have "ln (real_of_int k) \<le> real_of_int k - 1"
    using assms(1) by (intro ln_le_minus_one) simp
  also have "\<dots> \<le> 2 powi 32" using assms(2) by simp
  finally have "ln (real_of_int k) \<le> 2 powi 32" .
  moreover have "0 \<le> ln (real_of_int k)" using assms(1) by simp
  ultimately have "dbl_within 0 (2 powi 32)
      (rnd_to (if log_rounds_up G (real_of_int k) then ceiling else floor) (ln (real_of_int k)))"
    by (intro rnd_to_pow2 [OF int_rounding_log]) simp_all
  then show ?thesis using assms(1) by (simp add: dbl_log_def)
qed

lemma int_div_nonneg: "0 \<le> a \<Longrightarrow> 0 < b \<Longrightarrow> int_div a b = a div b"
  by (cases "a = 0") (simp_all add: int_div_def)

text \<open>The score of a visited child is not NaN and not negative when the root has been
  visited and the constant is positive.\<close>

lemma uct_nonneg:
  assumes "1 \<le> N" "0 < node_n cn" "0 \<le> node_w cn" "0 < c"
  shows "dbl_nonneg (uct G cn N (Fin c))"
proof -
  let ?n = "node_n cn"
  have d: "0 \<le> int_div (node_w cn) ?n"
    using assms(2,3) by (simp add: int_div_nonneg pos_imp_zdiv_nonneg_iff)
  have s1: "dbl_nonneg (dbl_log G N)" using assms(1) by (rule dbl_log_nonneg)
  have s2: "dbl_nonneg (dbl_div_int (dbl_log G N) ?n)"
    using s1 assms(2) by (cases "dbl_log G N") (simp_all add: rnd_nonneg)
  have s3: "dbl_nonneg (dbl_sqrt (dbl_div_int (dbl_log G N) ?n))"
    using s2 by (cases "dbl_div_int (dbl_log G N) ?n") (simp_all add: rnd_nonneg)
  have s4: "dbl_nonneg (dbl_mul (Fin c) (dbl_sqrt (dbl_div_int (dbl_log G N) ?n)))"
    using s3 assms(4) by (cases "dbl_sqrt (dbl_div_int (dbl_log G N) ?n)") (simp_all add: rnd_nonneg)
  have "dbl_nonneg (dbl_add_int (int_div (node_w cn) ?n)
      (dbl_mul (Fin c) (dbl_sqrt (dbl_div_int (dbl_log G N) ?n))))"
    using s4 d by (cases "dbl_mul (Fin c) (dbl_sqrt (dbl_div_int (dbl_log G N) ?n))")
      (simp_all add: rnd_nonneg)
  then show ?thesis by (simp add: uct_def)
qed

text \<open>The square root that enters the score of a visited child, for counters that are
  ints.\<close>

lemma uct_root_term:
  assumes "1 \<le> N" "N < 2 ^ 31" "0 < n"
  shows "dbl_within 0 (2 powi 16) (dbl_sqrt (dbl_div_int (dbl_log G N) n))"
proof -
  have n1: "1 \<le> real_of_int n" using assms(3) by simp
  from dbl_log_int [OF assms(1,2), of G] obtain a where
    a: "dbl_log G N = Fin a" "0 \<le> a" "a \<le> 2 powi 32" by (rule dbl_withinE)
  have "a / real_of_int n \<le> a / 1" using a(2) n1 by (intro divide_left_mono) simp_all
  then have "a / real_of_int n \<le> 2 powi 32" using a(3) by simp
  moreover have "0 \<le> a / real_of_int n" using a(2) n1 by simp
  ultimately have "dbl_within 0 (2 powi 32) (rnd (a / real_of_int n))"
    by (intro rnd_pow2) simp_all
  then obtain b where b: "rnd (a / real_of_int n) = Fin b" "0 \<le> b" "b \<le> 2 powi 32"
    by (rule dbl_withinE)
  have "sqrt b \<le> sqrt ((2 ^ 16)\<^sup>2)" using b(3) by (intro real_sqrt_le_mono) simp
  then have "sqrt b \<le> 2 powi 16" by simp
  moreover have "0 \<le> sqrt b" using b(2) by simp
  ultimately have "dbl_within 0 (2 powi 16) (rnd (sqrt b))"
    by (intro rnd_pow2) simp_all
  then show ?thesis using a(1) b(1,2) assms(3) by simp
qed

text \<open>With a root count that is an int, the score of a visited child is not NaN and not
  negative under a constant that is not negative.\<close>

lemma uct_nonneg_int:
  assumes "1 \<le> N" "N < 2 ^ 31" "0 < node_n cn" "0 \<le> node_w cn" "0 \<le> c"
  shows "dbl_nonneg (uct G cn N (Fin c))"
proof -
  let ?d = "int_div (node_w cn) (node_n cn)"
  have d0: "0 \<le> ?d" using assms(3,4) by (simp add: int_div_nonneg pos_imp_zdiv_nonneg_iff)
  from uct_root_term [OF assms(1,2,3), of G] obtain s where
    s: "dbl_sqrt (dbl_div_int (dbl_log G N) (node_n cn)) = Fin s" "0 \<le> s"
    by (rule dbl_withinE)
  have "dbl_nonneg (rnd (c * s))" using assms(5) s(2) by (intro rnd_nonneg) simp
  then have "dbl_nonneg (dbl_add_int ?d (rnd (c * s)))"
    using d0 by (cases "rnd (c * s)") (simp_all add: rnd_nonneg)
  then show ?thesis using s(1) by (simp add: uct_def)
qed

text \<open>With counters that are ints and a constant that is not huge, the score of a visited
  child is finite.\<close>

lemma uct_finite:
  assumes "1 \<le> N" "N < 2 ^ 31" "0 < node_n cn" "0 \<le> node_w cn" "node_w cn < 2 ^ 31"
    and "0 \<le> c" "c \<le> 2 ^ 1000"
  shows "\<exists>x. uct G cn N (Fin c) = Fin x \<and> 0 \<le> x"
proof -
  let ?d = "int_div (node_w cn) (node_n cn)"
  have d0: "0 \<le> ?d" using assms(3,4) by (simp add: int_div_nonneg pos_imp_zdiv_nonneg_iff)
  have "node_w cn div node_n cn \<le> node_w cn div 1"
    using assms(3,4) by (intro zdiv_mono2) simp_all
  then have "?d < 2 ^ 31" using assms(3,4,5) by (simp add: int_div_nonneg)
  then have d1: "real_of_int ?d \<le> 2 ^ 31" by (simp add: of_int_le_numeral_power_cancel_iff)
  from uct_root_term [OF assms(1,2,3), of G] obtain s where
    s: "dbl_sqrt (dbl_div_int (dbl_log G N) (node_n cn)) = Fin s" "0 \<le> s" "s \<le> 2 powi 16"
    by (rule dbl_withinE)
  have "c * s \<le> 2 ^ 1000 * 2 powi 16" using assms(6,7) s(2,3) by (intro mult_mono) simp_all
  also have "\<dots> = 2 powi 1016" by (simp add: power_add [symmetric])
  finally have "c * s \<le> 2 powi 1016" .
  moreover have "0 \<le> c * s" using assms(6) s(2) by simp
  ultimately have "dbl_within 0 (2 powi 1016) (rnd (c * s))"
    by (intro rnd_pow2) simp_all
  then obtain t where t: "rnd (c * s) = Fin t" "0 \<le> t" "t \<le> 2 powi 1016"
    by (rule dbl_withinE)
  have "real_of_int ?d + t \<le> 2 ^ 31 + 2 powi 1016" using d1 t(3) by simp
  also have "\<dots> \<le> 2 powi 1016 + 2 powi 1016" by simp
  also have "\<dots> = 2 powi 1017" by (simp add: power_add [symmetric])
  finally have "real_of_int ?d + t \<le> 2 powi 1017" .
  moreover have "0 \<le> real_of_int ?d + t" using d0 t(2) by simp
  ultimately have "dbl_within 0 (2 powi 1017) (rnd (real_of_int ?d + t))"
    by (intro rnd_pow2) simp_all
  then obtain x where "rnd (real_of_int ?d + t) = Fin x" "0 \<le> x" by (rule dbl_withinE)
  then show ?thesis using s(1) t(1) by (simp add: uct_def)
qed

text \<open>With \<open>0 \<le> w \<le> n\<close>, a root count that is an int and a constant not above 2, the score
  of a visited child is far below \<^verbatim>\<open>DBL_MAX\<close>.\<close>

lemma uct_not_above:
  assumes "0 < node_n cn" "0 \<le> node_w cn" "node_w cn \<le> node_n cn" "N < 2 ^ 31"
    and "\<not> dbl_gt c (Fin 2)"
  shows "\<not> dbl_gt (uct G cn N c) (Fin (2 powi 18))"
proof (cases "1 \<le> N")
  case False
  then have "dbl_sqrt (dbl_div_int (dbl_log G N) (node_n cn)) = NaN"
    using assms(1) by (simp add: dbl_log_def)
  then have "uct G cn N c = NaN" by (cases c) (simp_all add: uct_def)
  then show ?thesis by simp
next
  case True
  let ?d = "int_div (node_w cn) (node_n cn)"
  have "node_w cn div node_n cn \<le> 1"
    using zdiv_mono1 [OF assms(3,1)] assms(1) by simp
  then have d1: "real_of_int ?d \<le> 1" using assms(1,2) by (simp add: int_div_nonneg)
  from uct_root_term [OF True assms(4,1), of G] obtain s where
    s: "dbl_sqrt (dbl_div_int (dbl_log G N) (node_n cn)) = Fin s" "0 \<le> s" "s \<le> 2 powi 16"
    by (rule dbl_withinE)
  have sum: "\<not> dbl_gt (dbl_add_int ?d t) (Fin (2 powi 18))" if "\<not> dbl_gt t (Fin (2 powi 17))" for t
  proof (cases t)
    case (Fin y)
    with that have "y \<le> 2 powi 17" by simp
    with d1 have "real_of_int ?d + y \<le> 2 powi 18" by simp
    then have "\<not> dbl_gt (rnd (real_of_int ?d + y)) (Fin (2 powi 18))"
      by (intro rnd_upper) simp_all
    with Fin show ?thesis by simp
  qed (use that in simp_all)
  have "\<not> dbl_gt (dbl_mul c (Fin s)) (Fin (2 powi 17))"
  proof (cases c)
    case (Fin x)
    with assms(5) have "x \<le> 2" by simp
    then have "x * s \<le> 2 * 2 powi 16" using s(2,3) by (intro mult_mono) simp_all
    then have "x * s \<le> 2 powi 17" by simp
    then have "\<not> dbl_gt (rnd (x * s)) (Fin (2 powi 17))" by (intro rnd_upper) simp_all
    with Fin show ?thesis by simp
  qed (use assms(5) s(2) in simp_all)
  from sum [OF this] show ?thesis using s(1) by (simp add: uct_def)
qed

text \<open>An int is a double: the conversion is exact.\<close>

lemma int_exact:
  assumes "\<bar>k\<bar> \<le> 2 ^ 31"
  shows "rnd (real_of_int k) = Fin (real_of_int k)"
proof -
  have g: "\<exists>i::int. real_of_int k = real_of_int i * 2 powi (31 - 52)"
  proof -
    have "real_of_int k = real_of_int (k * 2 ^ 21) * 2 powi (31 - 52)"
      by (simp add: power_int_minus_divide)
    then show ?thesis by blast
  qed
  have "\<bar>real_of_int k\<bar> \<le> 2 ^ 31" using assms by (simp add: of_int_abs [symmetric] del: of_int_abs)
  then have b: "- (2 powi 31) \<le> real_of_int k" "real_of_int k \<le> 2 powi 31" by simp_all
  have "dbl_within (real_of_int k) (real_of_int k) (rnd (real_of_int k))"
    unfolding rnd_def
    by (rule rnd_to_bounds [OF int_rounding_round_even _ _ order_refl b(1) g order_refl b(2) g])
      simp_all
  then show ?thesis by (rule dbl_withinE) simp
qed

text \<open>The constants of the two call sites: 0.5 is a double, and the double nearest to
  \<open>1 / 10 ^ 12\<close> lies between \<open>1 / 2 ^ 40\<close> and \<open>1 / 2 ^ 39\<close>.\<close>

lemma half_exact: "rnd (1 / 2) = Fin (1 / 2)"
proof -
  have "dbl_within (1 / 2) (1 / 2) (rnd (1 / 2))" by (intro rnd_small) simp_all
  then show ?thesis by (rule dbl_withinE) simp
qed

lemma final_constant: "dbl_within (1 / 2 ^ 40) (1 / 2 ^ 39) (rnd (1 / 10 ^ 12))"
proof -
  have g1: "\<exists>i::int. (1 / 2 ^ 40 :: real) = real_of_int i * 2 powi (- 39 - 52)"
    using pow2_ratio_int [of "- 91" "- 40"] by (auto simp: power_int_minus_divide)
  have g2: "\<exists>i::int. (1 / 2 ^ 39 :: real) = real_of_int i * 2 powi (- 39 - 52)"
    using pow2_ratio_int [of "- 91" "- 39"] by (auto simp: power_int_minus_divide)
  show ?thesis
    unfolding rnd_def
    by (rule rnd_to_bounds [OF int_rounding_round_even _ _ _ _ g1 _ _ g2])
      (simp_all add: power_int_minus_divide)
qed

subsection \<open>The score of a visited child\<close>

lemma ln_4_bounds: "1 \<le> ln (4 :: real)" "ln (4 :: real) \<le> 3 / 2"
proof -
  have "exp (1 :: real) \<le> 4" using exp_le by simp
  then show "1 \<le> ln (4 :: real)" by (simp add: ln_ge_iff)
  have "(4 :: real) \<le> (1 + 3 / 4 + (3 / 4)\<^sup>2 / 2)\<^sup>2" by (simp add: power2_eq_square)
  also have "\<dots> \<le> (exp (3 / 4))\<^sup>2"
    by (intro power_mono exp_lower_Taylor_quadratic) simp_all
  also have "\<dots> = exp (3 / 2)" by (simp add: power2_eq_square exp_add [symmetric])
  finally have "ln (4 :: real) \<le> ln (exp (3 / 2))" by (subst ln_le_cancel_iff) simp_all
  then show "ln (4 :: real) \<le> 3 / 2" by simp
qed

text \<open>
  C2. The score of a visited child is the real-valued win rate \<open>w / n\<close> plus
  \<open>C * sqrt (ln N / n)\<close>, \<open>N\<close> the root's visit count. The code divides the two ints
  before the sum is widened to double, so the win rate is truncated: at \<open>w = 1\<close>,
  \<open>n = 2\<close>, \<open>N = 4\<close>, \<open>C = 1/2\<close> the first summand is 0 where the claim has 1/2, and the
  score computed is at most 7/16 where the claim has more than 27/32 (the second summand
  does use the root's count).
\<close>

theorem uct_truncates_win_rate:
  "uct G \<lparr>node_parent = Some 0, node_children = [], node_placer = White, node_move = (1::nat),
          node_n = 2, node_w = 1\<rparr> 4 (Fin (1 / 2)) =
     dbl_add_int 0 (dbl_mul (Fin (1 / 2)) (dbl_sqrt (dbl_div_int (dbl_log G 4) 2))) \<and>
   (\<exists>x. uct G \<lparr>node_parent = Some 0, node_children = [], node_placer = White,
                node_move = (1::nat), node_n = 2, node_w = 1\<rparr> 4 (Fin (1 / 2)) = Fin x \<and>
        11 / 32 \<le> x \<and> x \<le> 7 / 16) \<and>
   27 / 32 \<le> 1 / 2 + 1 / 2 * sqrt (ln 4 / 2)"
proof (intro conjI)
  let ?nd = "\<lparr>node_parent = Some 0, node_children = [], node_placer = White,
                node_move = (1::nat), node_n = 2, node_w = 1\<rparr>"
  show eq: "uct G ?nd 4 (Fin (1 / 2)) =
     dbl_add_int 0 (dbl_mul (Fin (1 / 2)) (dbl_sqrt (dbl_div_int (dbl_log G 4) 2)))"
    by (simp add: uct_def int_div_def)
  have "dbl_within 1 (3 / 2) (dbl_log G 4)"
    using ln_4_bounds by (intro dbl_log_small) simp_all
  then obtain a where a: "dbl_log G 4 = Fin a" "1 \<le> a" "a \<le> 3 / 2" by (rule dbl_withinE)
  have "dbl_within (1 / 2) (3 / 4) (rnd (a / 2))"
    using a(2,3) by (intro rnd_small) simp_all
  then obtain b where b: "rnd (a / 2) = Fin b" "1 / 2 \<le> b" "b \<le> 3 / 4" by (rule dbl_withinE)
  have "sqrt ((11 / 16)\<^sup>2) \<le> sqrt b" using b(2) by (intro real_sqrt_le_mono) (simp add: power2_eq_square)
  then have s1: "11 / 16 \<le> sqrt b" by simp
  have "sqrt b \<le> sqrt ((7 / 8)\<^sup>2)" using b(3) by (intro real_sqrt_le_mono) (simp add: power2_eq_square)
  then have s2: "sqrt b \<le> 7 / 8" by simp
  have "dbl_within (11 / 16) (7 / 8) (rnd (sqrt b))"
    using s1 s2 by (intro rnd_small) simp_all
  then obtain s where s: "rnd (sqrt b) = Fin s" "11 / 16 \<le> s" "s \<le> 7 / 8" by (rule dbl_withinE)
  have "dbl_within (11 / 32) (7 / 16) (rnd (1 / 2 * s))"
    using s(2,3) by (intro rnd_small) simp_all
  then obtain t where t: "rnd (1 / 2 * s) = Fin t" "11 / 32 \<le> t" "t \<le> 7 / 16" by (rule dbl_withinE)
  have "dbl_within (11 / 32) (7 / 16) (rnd (real_of_int 0 + t))"
    using t(2,3) by (intro rnd_small) simp_all
  then obtain x where x: "rnd (real_of_int 0 + t) = Fin x" "11 / 32 \<le> x" "x \<le> 7 / 16"
    by (rule dbl_withinE)
  have "dbl_add_int 0 (dbl_mul (Fin (1 / 2)) (dbl_sqrt (dbl_div_int (dbl_log G 4) 2))) = Fin x"
    using a(1) b(1,2) s(1) t(1) x(1) by simp
  then have "uct G ?nd 4 (Fin (1 / 2)) = Fin x" by (simp only: eq)
  with x(2,3) show "\<exists>x. uct G ?nd 4 (Fin (1 / 2)) = Fin x \<and> 11 / 32 \<le> x \<and> x \<le> 7 / 16" by blast
  have "sqrt ((11 / 16)\<^sup>2) \<le> sqrt (ln 4 / 2)"
    using ln_4_bounds(1) by (intro real_sqrt_le_mono) (simp add: power2_eq_square)
  then have "11 / 16 \<le> sqrt (ln 4 / 2)" by simp
  then show "27 / 32 \<le> 1 / 2 + 1 / 2 * sqrt (ln 4 / 2)" by simp
qed

text \<open>With the constant of the final choice, two children that have won each of their
  about \<open>10 ^ 9\<close> visits get the same score, the double that follows 1: the difference
  of their second summands is lost in the sum.\<close>

lemma ln_int_bounds:
  assumes "3 ^ 16 \<le> N" and "N < 2 ^ 31"
  shows "16 \<le> ln (real_of_int N)" and "ln (real_of_int N) \<le> 24"
proof -
  have pos: "0 < real_of_int N" using assms(1) by simp
  have "exp (16 :: real) = exp (real 16 * 1)" by simp
  also have "\<dots> = exp 1 ^ 16" by (rule exp_of_nat_mult)
  also have "\<dots> \<le> 3 ^ 16" by (intro power_mono exp_le) simp
  also have "\<dots> \<le> real_of_int N" using assms(1) by (simp add: numeral_power_le_of_int_cancel_iff)
  finally show "16 \<le> ln (real_of_int N)" using pos by (simp add: ln_ge_iff)
  have "real_of_int N \<le> 2 ^ 31" using assms(2) by (simp add: of_int_le_numeral_power_cancel_iff)
  then have "ln (real_of_int N) \<le> ln (2 ^ 31)" using pos by (subst ln_le_cancel_iff) simp_all
  also have "\<dots> = 31 * ln (2 :: real)" using ln_realpow [of "2 :: real" 31] by simp
  also have "ln (2 :: real) = ln (4 :: real) / 2" using ln_realpow [of "2 :: real" 2] by simp
  also have "31 * (ln (4 :: real) / 2) \<le> 24" using ln_4_bounds(2) by simp
  finally show "ln (real_of_int N) \<le> 24" .
qed

lemma uct_final_tie:
  assumes "3 ^ 16 \<le> N" and "N < 2 ^ 31"
    and "10 ^ 9 \<le> node_n cn" and "node_n cn \<le> 10 ^ 9 + 1" and "node_w cn = node_n cn"
  shows "uct G cn N (rnd (1 / 10 ^ 12)) = Fin (1 + 1 / 2 ^ 52)"
proof -
  let ?n = "real_of_int (node_n cn)"
  have n: "10 ^ 9 \<le> ?n" "?n \<le> 10 ^ 9 + 1" using assms(3,4) by simp_all
  have npos: "0 < node_n cn" using assms(3) by simp
  have d: "int_div (node_w cn) (node_n cn) = 1" using npos assms(5) by (simp add: int_div_nonneg)
  from final_constant obtain c where
    c: "rnd (1 / 10 ^ 12) = Fin c" "1 / 2 ^ 40 \<le> c" "c \<le> 1 / 2 ^ 39" by (rule dbl_withinE)
  have N1: "1 \<le> N" using assms(1) by simp
  have "dbl_within 16 24 (rnd_to (if log_rounds_up G (real_of_int N) then ceiling else floor)
      (ln (real_of_int N)))"
  proof (rule rnd_to_bounds [where K = 5])
    show "\<exists>i::int. (16 :: real) = real_of_int i * 2 powi (5 - 52)"
      using pow2_ratio_int [of "- 47" 4] by auto
    have "(24 :: real) = real_of_int (3 * 2 ^ 50) * 2 powi (5 - 52)"
      by (simp add: power_int_minus_divide)
    then show "\<exists>i::int. (24 :: real) = real_of_int i * 2 powi (5 - 52)" by blast
  qed (use ln_int_bounds [OF assms(1,2)] in \<open>simp_all add: int_rounding_log\<close>)
  then have "dbl_within 16 24 (dbl_log G N)" using N1 by (simp add: dbl_log_def)
  then obtain a where a: "dbl_log G N = Fin a" "16 \<le> a" "a \<le> 24" by (rule dbl_withinE)
  have u1: "17 / 2 ^ 30 \<le> a / ?n"
  proof -
    have "17 / 2 ^ 30 \<le> 16 / (10 ^ 9 + 1 :: real)" by (simp add: field_simps)
    also have "\<dots> \<le> 16 / ?n" using n by (intro divide_left_mono) simp_all
    also have "\<dots> \<le> a / ?n" using a(2) n by (intro divide_right_mono) simp_all
    finally show ?thesis .
  qed
  have u2: "a / ?n \<le> 13 / 2 ^ 29"
  proof -
    have "a / ?n \<le> 24 / ?n" using a(3) n by (intro divide_right_mono) simp_all
    also have "\<dots> \<le> 24 / 10 ^ 9" using n by (intro divide_left_mono) simp_all
    also have "\<dots> \<le> 13 / 2 ^ 29" by (simp add: field_simps)
    finally show ?thesis .
  qed
  have "dbl_within (17 / 2 ^ 30) (13 / 2 ^ 29) (rnd (a / ?n))"
    unfolding rnd_def
  proof (rule rnd_to_bounds [where K = "- 25"])
    have "(17 / 2 ^ 30 :: real) = real_of_int (17 * 2 ^ 47) * 2 powi (- 25 - 52)"
      by (simp add: power_int_minus_divide)
    then show "\<exists>i::int. (17 / 2 ^ 30 :: real) = real_of_int i * 2 powi (- 25 - 52)" by blast
    have "(13 / 2 ^ 29 :: real) = real_of_int (13 * 2 ^ 48) * 2 powi (- 25 - 52)"
      by (simp add: power_int_minus_divide)
    then show "\<exists>i::int. (13 / 2 ^ 29 :: real) = real_of_int i * 2 powi (- 25 - 52)" by blast
  qed (use u1 u2 in \<open>simp_all add: int_rounding_round_even power_int_minus_divide\<close>)
  then obtain b where b: "rnd (a / ?n) = Fin b" "17 / 2 ^ 30 \<le> b" "b \<le> 13 / 2 ^ 29"
    by (rule dbl_withinE)
  have b0: "0 \<le> b" using b(2) by (rule order_trans [rotated]) simp
  have "sqrt ((131 / 2 ^ 20)\<^sup>2) \<le> sqrt b"
    using b(2) by (intro real_sqrt_le_mono) (simp add: power2_eq_square)
  then have s1: "131 / 2 ^ 20 \<le> sqrt b" by simp
  have "sqrt b \<le> sqrt ((41 / 2 ^ 18)\<^sup>2)"
    using b(3) by (intro real_sqrt_le_mono) (simp add: power2_eq_square)
  then have s2: "sqrt b \<le> 41 / 2 ^ 18" by simp
  have "dbl_within (131 / 2 ^ 20) (41 / 2 ^ 18) (rnd (sqrt b))"
    unfolding rnd_def
  proof (rule rnd_to_bounds [where K = "- 12"])
    have "(131 / 2 ^ 20 :: real) = real_of_int (131 * 2 ^ 44) * 2 powi (- 12 - 52)"
      by (simp add: power_int_minus_divide)
    then show "\<exists>i::int. (131 / 2 ^ 20 :: real) = real_of_int i * 2 powi (- 12 - 52)" by blast
    have "(41 / 2 ^ 18 :: real) = real_of_int (41 * 2 ^ 46) * 2 powi (- 12 - 52)"
      by (simp add: power_int_minus_divide)
    then show "\<exists>i::int. (41 / 2 ^ 18 :: real) = real_of_int i * 2 powi (- 12 - 52)" by blast
  qed (use s1 s2 in \<open>simp_all add: int_rounding_round_even power_int_minus_divide\<close>)
  then obtain s where s: "rnd (sqrt b) = Fin s" "131 / 2 ^ 20 \<le> s" "s \<le> 41 / 2 ^ 18"
    by (rule dbl_withinE)
  have s0: "0 \<le> s" using s(2) by (rule order_trans [rotated]) simp
  have c0: "0 \<le> c" using c(2) by (rule order_trans [rotated]) simp
  have t1: "131 / 2 ^ 60 \<le> c * s"
  proof -
    have "1 / 2 ^ 40 * (131 / 2 ^ 20) \<le> c * s" using c(2) s(2) by (intro mult_mono) simp_all
    then show ?thesis by simp
  qed
  have t2: "c * s \<le> 41 / 2 ^ 57"
  proof -
    have "c * s \<le> 1 / 2 ^ 39 * (41 / 2 ^ 18)" using c(3) s(3) c0 s0 by (intro mult_mono) simp_all
    then show ?thesis by simp
  qed
  have "dbl_within (131 / 2 ^ 60) (41 / 2 ^ 57) (rnd (c * s))"
    unfolding rnd_def
  proof (rule rnd_to_bounds [where K = "- 51"])
    have "(131 / 2 ^ 60 :: real) = real_of_int (131 * 2 ^ 43) * 2 powi (- 51 - 52)"
      by (simp add: power_int_minus_divide)
    then show "\<exists>i::int. (131 / 2 ^ 60 :: real) = real_of_int i * 2 powi (- 51 - 52)" by blast
    have "(41 / 2 ^ 57 :: real) = real_of_int (41 * 2 ^ 46) * 2 powi (- 51 - 52)"
      by (simp add: power_int_minus_divide)
    then show "\<exists>i::int. (41 / 2 ^ 57 :: real) = real_of_int i * 2 powi (- 51 - 52)" by blast
  qed (use t1 t2 in \<open>simp_all add: int_rounding_round_even power_int_minus_divide\<close>)
  then obtain t where t: "rnd (c * s) = Fin t" "131 / 2 ^ 60 \<le> t" "t \<le> 41 / 2 ^ 57"
    by (rule dbl_withinE)
  have "1 / 2 ^ 53 < t" using t(2) by (rule less_le_trans [rotated]) simp
  moreover have "t < 3 / 2 ^ 53" using t(3) by (rule le_less_trans) simp
  ultimately have "rnd (1 + t) = Fin (1 + 1 / 2 ^ 52)" by (rule rnd_one_plus_ulp)
  then show ?thesis
    using a(1) b(1) b0 s(1) t(1) c(1) d npos by (simp add: uct_def)
qed

subsection \<open>Which child \<^verbatim>\<open>select_child\<close> returns\<close>

lemma best_loop_spec:
  assumes "\<forall>ch\<in>set cs. child_score G h rt c ch \<noteq> None"
  shows "\<exists>m b. best_loop G h rt c cs (m0, b0) = Some (m, b) \<and>
     ((m = m0 \<and> b = b0 \<and> (\<forall>k<length cs. \<not> dbl_gt (score_of G h rt c (cs ! k)) m0)) \<or>
      (\<exists>i. first_best (map (score_of G h rt c) cs) i \<and> b = Some (cs ! i) \<and>
           m = score_of G h rt c (cs ! i) \<and> dbl_gt m m0))"
  using assms
proof (induction cs arbitrary: m0 b0)
  case Nil
  then show ?case by simp
next
  case (Cons ch cs)
  let ?sc = "score_of G h rt c"
  from Cons.prems obtain s where s: "child_score G h rt c ch = Some s" by auto
  then have sc: "?sc ch = s" by (simp add: score_of_def)
  from Cons.prems have rest: "\<forall>ch\<in>set cs. child_score G h rt c ch \<noteq> None" by simp
  show ?case
  proof (cases "dbl_gt s m0")
    case True
    from Cons.IH [OF rest, of s "Some ch"] obtain m b where
      run: "best_loop G h rt c cs (s, Some ch) = Some (m, b)" and
      alt: "(m = s \<and> b = Some ch \<and> (\<forall>k<length cs. \<not> dbl_gt (?sc (cs ! k)) s)) \<or>
        (\<exists>i. first_best (map ?sc cs) i \<and> b = Some (cs ! i) \<and> m = ?sc (cs ! i) \<and> dbl_gt m s)"
      by blast
    have eq: "best_loop G h rt c (ch # cs) (m0, b0) = Some (m, b)"
      using s True run by simp
    from alt show ?thesis
    proof
      assume a: "m = s \<and> b = Some ch \<and> (\<forall>k<length cs. \<not> dbl_gt (?sc (cs ! k)) s)"
      have "first_best (map ?sc (ch # cs)) 0"
        using a sc by (auto simp: first_best_def nth_Cons' dbl_gt_irrefl)
      moreover have "b = Some ((ch # cs) ! 0)" "m = ?sc ((ch # cs) ! 0)" "dbl_gt m m0"
        using a sc True by simp_all
      ultimately show ?thesis using eq by blast
    next
      assume "\<exists>i. first_best (map ?sc cs) i \<and> b = Some (cs ! i) \<and> m = ?sc (cs ! i) \<and> dbl_gt m s"
      then obtain i where i: "first_best (map ?sc cs) i" "b = Some (cs ! i)"
        "m = ?sc (cs ! i)" "dbl_gt m s" by blast
      have "first_best (map ?sc (ch # cs)) (Suc i)"
        using i sc dbl_gt_asym [of m s] dbl_gt_irrefl [of s]
        by (auto simp: first_best_def nth_Cons' less_Suc_eq_0_disj)
      moreover have "dbl_gt m m0" using i(4) True by (rule dbl_gt_trans)
      moreover have "b = Some ((ch # cs) ! Suc i)" "m = ?sc ((ch # cs) ! Suc i)"
        using i by simp_all
      ultimately show ?thesis using eq by blast
    qed
  next
    case False
    from Cons.IH [OF rest, of m0 b0] obtain m b where
      run: "best_loop G h rt c cs (m0, b0) = Some (m, b)" and
      alt: "(m = m0 \<and> b = b0 \<and> (\<forall>k<length cs. \<not> dbl_gt (?sc (cs ! k)) m0)) \<or>
        (\<exists>i. first_best (map ?sc cs) i \<and> b = Some (cs ! i) \<and> m = ?sc (cs ! i) \<and> dbl_gt m m0)"
      by blast
    have eq: "best_loop G h rt c (ch # cs) (m0, b0) = Some (m, b)"
      using s False run by simp
    from alt show ?thesis
    proof
      assume a: "m = m0 \<and> b = b0 \<and> (\<forall>k<length cs. \<not> dbl_gt (?sc (cs ! k)) m0)"
      then have "\<forall>k<length (ch # cs). \<not> dbl_gt (?sc ((ch # cs) ! k)) m0"
        using False sc by (auto simp: nth_Cons' )
      with a eq show ?thesis by blast
    next
      assume "\<exists>i. first_best (map ?sc cs) i \<and> b = Some (cs ! i) \<and> m = ?sc (cs ! i) \<and> dbl_gt m m0"
      then obtain i where i: "first_best (map ?sc cs) i" "b = Some (cs ! i)"
        "m = ?sc (cs ! i)" "dbl_gt m m0" by blast
      have "\<not> dbl_gt s m" using False i(4) dbl_gt_trans by blast
      moreover have "s \<noteq> m" using False i(4) by auto
      ultimately have "first_best (map ?sc (ch # cs)) (Suc i)"
        using i sc
        by (auto simp: first_best_def nth_Cons' less_Suc_eq_0_disj)
      moreover have "b = Some ((ch # cs) ! Suc i)" "m = ?sc ((ch # cs) ! Suc i)"
        using i by simp_all
      ultimately show ?thesis using eq i(4) by blast
    qed
  qed
qed

lemma child_score_unvisited:
  "ch < length h \<Longrightarrow> node_n (h ! ch) = 0 \<Longrightarrow> child_score G h rt c ch = Some DBL_MAX"
  by (simp add: child_score_def deref_def is_unvisited_def)

lemma child_score_visited:
  "ch < length h \<Longrightarrow> node_n (h ! ch) \<noteq> 0 \<Longrightarrow> deref h rt = Some r \<Longrightarrow>
   child_score G h rt c ch = Some (uct G (h ! ch) (node_n r) c)"
  by (simp add: child_score_def deref_def is_unvisited_def)

lemma child_score_defined:
  "ch < length h \<Longrightarrow> deref h rt = Some r \<Longrightarrow> child_score G h rt c ch \<noteq> None"
  by (simp add: child_score_def deref_def is_unvisited_def)

lemma child_score_in_heap: "child_score G h rt c ch \<noteq> None \<Longrightarrow> ch < length h"
  by (simp add: child_score_def deref_def split: if_splits)

lemma select_child_result:
  assumes nd: "deref h node = Some nd" and ne: "node_children nd \<noteq> []"
    and sc: "\<forall>ch\<in>set (node_children nd). child_score G h rt c ch \<noteq> None"
  shows "(select_child G h state node rt c = None \<and>
          (\<forall>k<length (node_children nd).
             \<not> dbl_gt (score_of G h rt c (node_children nd ! k)) (Fin (- 1)))) \<or>
         (\<exists>i. first_best (map (score_of G h rt c) (node_children nd)) i \<and>
              dbl_gt (score_of G h rt c (node_children nd ! i)) (Fin (- 1)) \<and>
              select_child G h state node rt c =
                Some (Some (node_children nd ! i),
                      snd (board_place G state (node_move (h ! (node_children nd ! i))))))"
proof -
  let ?cs = "node_children nd"
  from best_loop_spec [OF sc, of "Fin (- 1)" None] obtain m b where
    run: "best_loop G h rt c ?cs (Fin (- 1), None) = Some (m, b)" and
    alt: "(m = Fin (- 1) \<and> b = None \<and>
            (\<forall>k<length ?cs. \<not> dbl_gt (score_of G h rt c (?cs ! k)) (Fin (- 1)))) \<or>
          (\<exists>i. first_best (map (score_of G h rt c) ?cs) i \<and> b = Some (?cs ! i) \<and>
               m = score_of G h rt c (?cs ! i) \<and> dbl_gt m (Fin (- 1)))"
    by blast
  from alt show ?thesis
  proof
    assume a: "m = Fin (- 1) \<and> b = None \<and>
            (\<forall>k<length ?cs. \<not> dbl_gt (score_of G h rt c (?cs ! k)) (Fin (- 1)))"
    then have "select_child G h state node rt c = None"
      using nd ne run by (simp add: select_child_def)
    with a show ?thesis by blast
  next
    assume "\<exists>i. first_best (map (score_of G h rt c) ?cs) i \<and> b = Some (?cs ! i) \<and>
               m = score_of G h rt c (?cs ! i) \<and> dbl_gt m (Fin (- 1))"
    then obtain i where i: "first_best (map (score_of G h rt c) ?cs) i" "b = Some (?cs ! i)"
      "m = score_of G h rt c (?cs ! i)" "dbl_gt m (Fin (- 1))" by blast
    from i(1) have "i < length ?cs" by (simp add: first_best_def)
    then have "?cs ! i \<in> set ?cs" by simp
    with sc have "?cs ! i < length h" using child_score_in_heap by blast
    then have "select_child G h state node rt c =
        Some (Some (?cs ! i), snd (board_place G state (node_move (h ! (?cs ! i)))))"
      using nd ne run i(2) by (simp add: select_child_def deref_def)
    with i show ?thesis by blast
  qed
qed


lemma select_child_state:
  assumes "select_child G h state node rt c = Some (Some best, state')"
  shows "best < length h \<and> state' = snd (board_place G state (node_move (h ! best)))"
  using assms
  by (auto simp: select_child_def deref_def split: option.splits if_splits prod.splits)

text \<open>When every score exceeds \<open>-1\<close>, \<^verbatim>\<open>best_child\<close> is assigned and a child is
  returned.\<close>

lemma select_child_some:
  assumes nd: "deref h node = Some nd" and ne: "node_children nd \<noteq> []"
    and sc: "\<forall>ch\<in>set (node_children nd). child_score G h rt c ch \<noteq> None"
    and gt: "\<forall>ch\<in>set (node_children nd). dbl_gt (score_of G h rt c ch) (Fin (- 1))"
  shows "\<exists>best state'. select_child G h state node rt c = Some (Some best, state') \<and>
     best \<in> set (node_children nd)"
proof -
  let ?cs = "node_children nd"
  from ne obtain c0 where c0: "c0 \<in> set ?cs" by (cases ?cs) auto
  from select_child_result [OF nd ne sc, of state]
  have "\<exists>i<length ?cs. select_child G h state node rt c =
      Some (Some (?cs ! i), snd (board_place G state (node_move (h ! (?cs ! i)))))"
  proof
    assume "select_child G h state node rt c = None \<and>
          (\<forall>k<length ?cs. \<not> dbl_gt (score_of G h rt c (?cs ! k)) (Fin (- 1)))"
    with gt c0 show ?thesis by (metis in_set_conv_nth)
  next
    assume "\<exists>i. first_best (map (score_of G h rt c) ?cs) i \<and>
              dbl_gt (score_of G h rt c (?cs ! i)) (Fin (- 1)) \<and>
              select_child G h state node rt c =
                Some (Some (?cs ! i), snd (board_place G state (node_move (h ! (?cs ! i)))))"
    then show ?thesis by (auto simp: first_best_def)
  qed
  then show ?thesis by (metis nth_mem)
qed

text \<open>What the search needs of \<^verbatim>\<open>select_child\<close>: on a node with children, under a
  positive constant and with a visited root, it returns one of the children.\<close>

lemma select_child_returns:
  assumes "deref h node = Some nd" and "node_children nd \<noteq> []"
    and "deref h rt = Some r" and "1 \<le> node_n r"
    and "\<forall>ch\<in>set (node_children nd).
           ch < length h \<and> 0 \<le> node_n (h ! ch) \<and> 0 \<le> node_w (h ! ch)"
    and "0 < c"
  shows "\<exists>best state'. select_child G h state node rt (Fin c) = Some (Some best, state') \<and>
     best \<in> set (node_children nd)"
proof -
  let ?cs = "node_children nd"
  have defined: "\<forall>ch\<in>set ?cs. child_score G h rt (Fin c) ch \<noteq> None"
    using assms(3,5) child_score_defined by blast
  have gt: "\<forall>ch\<in>set ?cs. dbl_gt (score_of G h rt (Fin c) ch) (Fin (- 1))"
  proof
    fix ch assume "ch \<in> set ?cs"
    with assms(5) have in_h: "ch < length h" and n0: "0 \<le> node_n (h ! ch)"
      and w0: "0 \<le> node_w (h ! ch)" by auto
    show "dbl_gt (score_of G h rt (Fin c) ch) (Fin (- 1))"
    proof (cases "node_n (h ! ch) = 0")
      case True
      then show ?thesis using in_h max_finite_pos
        by (simp add: score_of_def child_score_unvisited DBL_MAX_def)
    next
      case False
      with n0 have "0 < node_n (h ! ch)" by simp
      from uct_nonneg [OF assms(4) this w0 assms(6), of G] False in_h assms(3)
      show ?thesis by (simp add: score_of_def child_score_visited dbl_nonneg_gt)
    qed
  qed
  from select_child_some [OF assms(1,2) defined gt] show ?thesis .
qed

lemma select_child_scores:
  assumes "deref h node = Some nd" and "node_children nd \<noteq> []"
    and "deref h rt = Some r" and "1 \<le> node_n r" and "node_n r < 2 ^ 31"
    and "\<forall>ch\<in>set (node_children nd).
           ch < length h \<and> 0 \<le> node_n (h ! ch) \<and> 0 \<le> node_w (h ! ch)"
    and "0 \<le> c"
  shows "(\<forall>ch\<in>set (node_children nd).
            if node_n (h ! ch) = 0 then child_score G h rt (Fin c) ch = Some DBL_MAX
            else child_score G h rt (Fin c) ch = Some PInf \<or>
                 (\<exists>x. child_score G h rt (Fin c) ch = Some (Fin x) \<and> 0 \<le> x)) \<and>
         ((\<forall>ch\<in>set (node_children nd). node_w (h ! ch) < 2 ^ 31) \<and> c \<le> 2 ^ 1000 \<longrightarrow>
            (\<forall>ch\<in>set (node_children nd).
               if node_n (h ! ch) = 0 then child_score G h rt (Fin c) ch = Some DBL_MAX
               else \<exists>x. child_score G h rt (Fin c) ch = Some (Fin x) \<and> 0 \<le> x)) \<and>
         (\<exists>ch\<in>set (node_children nd). dbl_gt (score_of G h rt (Fin c) ch) (Fin (- 1))) \<and>
         (\<exists>best state'. select_child G h state node rt (Fin c) = Some (Some best, state') \<and>
            best \<in> set (node_children nd))"
proof -
  let ?cs = "node_children nd"
  have visited: "child_score G h rt (Fin c) ch = Some (uct G (h ! ch) (node_n r) (Fin c)) \<and>
      0 < node_n (h ! ch) \<and> 0 \<le> node_w (h ! ch)"
    if "ch \<in> set ?cs" "node_n (h ! ch) \<noteq> 0" for ch
    using that assms(3,6) by (auto simp: child_score_visited)
  have scores: "\<forall>ch\<in>set ?cs.
            if node_n (h ! ch) = 0 then child_score G h rt (Fin c) ch = Some DBL_MAX
            else child_score G h rt (Fin c) ch = Some PInf \<or>
                 (\<exists>x. child_score G h rt (Fin c) ch = Some (Fin x) \<and> 0 \<le> x)"
  proof
    fix ch assume ch: "ch \<in> set ?cs"
    show "if node_n (h ! ch) = 0 then child_score G h rt (Fin c) ch = Some DBL_MAX
          else child_score G h rt (Fin c) ch = Some PInf \<or>
               (\<exists>x. child_score G h rt (Fin c) ch = Some (Fin x) \<and> 0 \<le> x)"
    proof (cases "node_n (h ! ch) = 0")
      case True
      then show ?thesis using ch assms(6) by (simp add: child_score_unvisited)
    next
      case False
      from visited [OF ch False] have v: "child_score G h rt (Fin c) ch =
          Some (uct G (h ! ch) (node_n r) (Fin c))" "0 < node_n (h ! ch)" "0 \<le> node_w (h ! ch)"
        by simp_all
      from uct_nonneg_int [OF assms(4,5) v(2,3) assms(7), of G] False v(1)
      show ?thesis by (cases "uct G (h ! ch) (node_n r) (Fin c)") simp_all
    qed
  qed
  have finite: "\<forall>ch\<in>set ?cs.
            if node_n (h ! ch) = 0 then child_score G h rt (Fin c) ch = Some DBL_MAX
            else \<exists>x. child_score G h rt (Fin c) ch = Some (Fin x) \<and> 0 \<le> x"
    if ints: "\<forall>ch\<in>set ?cs. node_w (h ! ch) < 2 ^ 31" and c: "c \<le> 2 ^ 1000"
  proof
    fix ch assume ch: "ch \<in> set ?cs"
    show "if node_n (h ! ch) = 0 then child_score G h rt (Fin c) ch = Some DBL_MAX
          else \<exists>x. child_score G h rt (Fin c) ch = Some (Fin x) \<and> 0 \<le> x"
    proof (cases "node_n (h ! ch) = 0")
      case True
      then show ?thesis using ch assms(6) by (simp add: child_score_unvisited)
    next
      case False
      from visited [OF ch False] have v: "child_score G h rt (Fin c) ch =
          Some (uct G (h ! ch) (node_n r) (Fin c))" "0 < node_n (h ! ch)" "0 \<le> node_w (h ! ch)"
        by simp_all
      from ints ch have "node_w (h ! ch) < 2 ^ 31" by blast
      from uct_finite [OF assms(4,5) v(2,3) this assms(7) c, of G] False v(1)
      show ?thesis by simp
    qed
  qed
  have gt: "\<forall>ch\<in>set ?cs. dbl_gt (score_of G h rt (Fin c) ch) (Fin (- 1))"
  proof
    fix ch assume "ch \<in> set ?cs"
    with scores have "if node_n (h ! ch) = 0 then child_score G h rt (Fin c) ch = Some DBL_MAX
          else child_score G h rt (Fin c) ch = Some PInf \<or>
               (\<exists>x. child_score G h rt (Fin c) ch = Some (Fin x) \<and> 0 \<le> x)" by blast
    then show "dbl_gt (score_of G h rt (Fin c) ch) (Fin (- 1))"
      using max_finite_pos by (auto simp: score_of_def DBL_MAX_def split: if_splits)
  qed
  from assms(2) obtain c0 where c0: "c0 \<in> set ?cs" by (cases ?cs) auto
  with gt have some: "\<exists>ch\<in>set ?cs. dbl_gt (score_of G h rt (Fin c) ch) (Fin (- 1))" by blast
  have defined: "\<forall>ch\<in>set ?cs. child_score G h rt (Fin c) ch \<noteq> None"
    using assms(3,6) child_score_defined by blast
  from select_child_some [OF assms(1,2) defined gt, of state] scores finite some
  show ?thesis by blast
qed

text \<open>
  C10. When \<^verbatim>\<open>select_child\<close> is invoked on a node with at least one child while the
  root's visit count is at least 1 (and an int, so below \<open>2 ^ 31\<close>), the children's
  counters not being negative and the exploration constant being a finite double that is
  not negative, as at both call sites: every child's score is \<^verbatim>\<open>DBL_MAX\<close> (unvisited) or
  a non-negative value, never NaN; some score exceeds the initial maximum \<open>-1\<close>;
  \<^verbatim>\<open>best_child\<close> is assigned before it is read, and a child of the node is returned.
  The non-negative value is finite when the win counts are ints and the constant is at
  most \<open>2 ^ 1000\<close>, as 0.5 and 0.000000000001 are; a larger constant can make the
  product overflow to \<open>+\<infinity>\<close>.
\<close>

theorem select_child_assigns_best:
  assumes "deref h node = Some nd" and "node_children nd \<noteq> []"
    and "deref h rt = Some r" and "1 \<le> node_n r" and "node_n r < 2 ^ 31"
    and "\<forall>ch\<in>set (node_children nd).
           ch < length h \<and> 0 \<le> node_n (h ! ch) \<and> 0 \<le> node_w (h ! ch)"
    and "0 \<le> c"
  shows "(\<forall>ch\<in>set (node_children nd).
            if node_n (h ! ch) = 0 then child_score G h rt (Fin c) ch = Some DBL_MAX
            else child_score G h rt (Fin c) ch = Some PInf \<or>
                 (\<exists>x. child_score G h rt (Fin c) ch = Some (Fin x) \<and> 0 \<le> x)) \<and>
         ((\<forall>ch\<in>set (node_children nd). node_w (h ! ch) < 2 ^ 31) \<and> c \<le> 2 ^ 1000 \<longrightarrow>
            (\<forall>ch\<in>set (node_children nd).
               if node_n (h ! ch) = 0 then child_score G h rt (Fin c) ch = Some DBL_MAX
               else \<exists>x. child_score G h rt (Fin c) ch = Some (Fin x) \<and> 0 \<le> x)) \<and>
         (\<exists>ch\<in>set (node_children nd). dbl_gt (score_of G h rt (Fin c) ch) (Fin (- 1))) \<and>
         (\<exists>best state'. select_child G h state node rt (Fin c) = Some (Some best, state') \<and>
            best \<in> set (node_children nd))"
  using assms by (rule select_child_scores)

text \<open>On \<open>demo_heap\<close> under 0.5: the visited child has a finite score that is not negative,
  the two others score \<^verbatim>\<open>DBL_MAX\<close>, and a child is returned.\<close>

theorem select_child_assigns_best_witness:
  "(\<exists>x. child_score toy_game demo_heap 0 (Fin (1 / 2)) 1 = Some (Fin x) \<and> 0 \<le> x) \<and>
   child_score toy_game demo_heap 0 (Fin (1 / 2)) 2 = Some DBL_MAX \<and>
   (\<exists>best state'. select_child toy_game demo_heap [] 0 0 (Fin (1 / 2)) = Some (Some best, state') \<and>
      best \<in> set [1, 2, 3])"
proof -
  have d0: "deref demo_heap 0 = Some (demo_heap ! 0)" by (simp add: demo_heap_def deref_def)
  have cs: "node_children (demo_heap ! 0) = [1, 2, 3]" by (simp add: demo_heap_def)
  have ne: "node_children (demo_heap ! 0) \<noteq> []" by (simp add: cs)
  have rn: "1 \<le> node_n (demo_heap ! 0)" "node_n (demo_heap ! 0) < 2 ^ 31"
    by (simp_all add: demo_heap_def)
  have stats: "\<forall>ch\<in>set (node_children (demo_heap ! 0)). ch < length demo_heap \<and>
      0 \<le> node_n (demo_heap ! ch) \<and> 0 \<le> node_w (demo_heap ! ch)"
    by (simp add: demo_heap_def)
  have ints: "\<forall>ch\<in>set (node_children (demo_heap ! 0)). node_w (demo_heap ! ch) < 2 ^ 31"
    by (simp add: demo_heap_def)
  have c0: "(0 :: real) \<le> 1 / 2" by simp
  have "(1 / 2 :: real) \<le> 2 ^ 0" by simp
  also have "\<dots> \<le> 2 ^ 1000" by (rule power_increasing) simp_all
  finally have c1: "(1 / 2 :: real) \<le> 2 ^ 1000" .
  have n1: "node_n (demo_heap ! 1) \<noteq> 0" and n2: "node_n (demo_heap ! 2) = 0"
    by (simp_all add: demo_heap_def)
  note r = select_child_assigns_best [OF d0 ne d0 rn stats c0, of toy_game "[]"]
  from r ints c1 have fin: "\<forall>ch\<in>set (node_children (demo_heap ! 0)).
      if node_n (demo_heap ! ch) = 0
      then child_score toy_game demo_heap 0 (Fin (1 / 2)) ch = Some DBL_MAX
      else \<exists>x. child_score toy_game demo_heap 0 (Fin (1 / 2)) ch = Some (Fin x) \<and> 0 \<le> x"
    by blast
  have "(1 :: nat) \<in> set (node_children (demo_heap ! 0))"
    "(2 :: nat) \<in> set (node_children (demo_heap ! 0))" by (simp_all add: cs)
  with fin n1 n2 have
    "\<exists>x. child_score toy_game demo_heap 0 (Fin (1 / 2)) 1 = Some (Fin x) \<and> 0 \<le> x"
    "child_score toy_game demo_heap 0 (Fin (1 / 2)) 2 = Some DBL_MAX"
    by (metis (full_types))+
  moreover from r cs have "\<exists>best state'.
      select_child toy_game demo_heap [] 0 0 (Fin (1 / 2)) = Some (Some best, state') \<and>
      best \<in> set [1, 2, 3]" by simp
  ultimately show ?thesis by blast
qed

text \<open>
  C4. When the node \<^verbatim>\<open>select_child\<close> evaluates has an unvisited child, the child
  returned is unvisited, and it is the first unvisited one in the order of
  \<^verbatim>\<open>children\<close>: no visited child is preferred to it (the statistics satisfy
  \<open>0 \<le> w \<le> n\<close>, the root's count is an int, the constant is not above 2, as at every
  call site). Whatever child is returned holds the first greatest score: no earlier child
  has a greater or an equal score, and no child has a greater one. The scores are the
  doubles the code computes, so two children whose exact scores differ tie when the
  scores round to the same double, and the earlier one is returned.
\<close>

theorem select_child_prefers_unvisited:
  assumes "deref h node = Some nd"
    and "\<forall>ch\<in>set (node_children nd).
           ch < length h \<and> 0 \<le> node_w (h ! ch) \<and> node_w (h ! ch) \<le> node_n (h ! ch)"
    and "deref h rt = Some r" and "node_n r < 2 ^ 31" and "\<not> dbl_gt c (Fin 2)"
  shows "((\<exists>ch\<in>set (node_children nd). node_n (h ! ch) = 0) \<longrightarrow>
          (\<exists>i<length (node_children nd).
             node_n (h ! (node_children nd ! i)) = 0 \<and>
             (\<forall>j<i. node_n (h ! (node_children nd ! j)) \<noteq> 0) \<and>
             select_child G h state node rt c =
               Some (Some (node_children nd ! i),
                     snd (board_place G state (node_move (h ! (node_children nd ! i))))))) \<and>
         (\<forall>best state'. select_child G h state node rt c = Some (Some best, state') \<longrightarrow>
            (\<exists>i. first_best (map (score_of G h rt c) (node_children nd)) i \<and>
                 best = node_children nd ! i))"
proof (intro conjI impI allI)
  let ?cs = "node_children nd"
  let ?sc = "score_of G h rt c"
  have defined: "\<forall>ch\<in>set ?cs. child_score G h rt c ch \<noteq> None"
    using assms(2,3) child_score_defined by blast
  {
    fix best state'
    assume ret: "select_child G h state node rt c = Some (Some best, state')"
    have ne: "?cs \<noteq> []" using ret assms(1) by (auto simp: select_child_def)
    from select_child_result [OF assms(1) ne defined, of state] ret
    show "\<exists>i. first_best (map ?sc ?cs) i \<and> best = ?cs ! i" by auto
  }
  assume "\<exists>ch\<in>set ?cs. node_n (h ! ch) = 0"
  then obtain u where u: "u \<in> set ?cs" "node_n (h ! u) = 0" by blast
  then obtain k where k: "k < length ?cs" "?cs ! k = u" by (auto simp: in_set_conv_nth)
  have u_h: "u < length h" using u(1) assms(2) by blast
  have su: "?sc u = DBL_MAX" using u_h u(2) by (simp add: score_of_def child_score_unvisited)
  have gt_u: "dbl_gt (?sc (?cs ! k)) (Fin (- 1))"
    using su k max_finite_pos by (simp add: DBL_MAX_def)
  have ne: "?cs \<noteq> []" using u(1) by auto
  from select_child_result [OF assms(1) ne defined, of state] gt_u k(1)
  obtain i where i: "first_best (map ?sc ?cs) i" "dbl_gt (?sc (?cs ! i)) (Fin (- 1))"
    "select_child G h state node rt c =
       Some (Some (?cs ! i), snd (board_place G state (node_move (h ! (?cs ! i)))))"
    by blast
  from i(1) have il: "i < length ?cs" by (simp add: first_best_def)
  then have mem: "?cs ! i \<in> set ?cs" by simp
  with assms(2) have ih: "?cs ! i < length h" and w0: "0 \<le> node_w (h ! (?cs ! i))"
    and wn: "node_w (h ! (?cs ! i)) \<le> node_n (h ! (?cs ! i))" by auto
  have no_greater: "\<not> dbl_gt DBL_MAX (?sc (?cs ! i))"
    using i(1) k su il by (auto simp: first_best_def)
  have unv: "node_n (h ! (?cs ! i)) = 0"
  proof (rule ccontr)
    assume nz: "node_n (h ! (?cs ! i)) \<noteq> 0"
    with w0 wn have pos: "0 < node_n (h ! (?cs ! i))" by simp
    have "?sc (?cs ! i) = uct G (h ! (?cs ! i)) (node_n r) c"
      using ih nz assms(3) by (simp add: score_of_def child_score_visited)
    with uct_not_above [OF pos w0 wn assms(4,5), of G]
    have below: "\<not> dbl_gt (?sc (?cs ! i)) (Fin (2 powi 18))" by simp
    have "(2 :: real) powi 18 < max_finite" by (rule pow2_below_max) simp
    with below i(2) no_greater show False
      by (cases "?sc (?cs ! i)") (simp_all add: DBL_MAX_def)
  qed
  have si: "?sc (?cs ! i) = DBL_MAX"
    using ih unv by (simp add: score_of_def child_score_unvisited)
  have earlier: "\<forall>j<i. node_n (h ! (?cs ! j)) \<noteq> 0"
  proof (intro allI impI notI)
    fix j assume j: "j < i" and z: "node_n (h ! (?cs ! j)) = 0"
    from j il have "?cs ! j \<in> set ?cs" by simp
    with assms(2) have "?cs ! j < length h" by blast
    with z have "?sc (?cs ! j) = DBL_MAX" by (simp add: score_of_def child_score_unvisited)
    with si i(1) j il show False by (auto simp: first_best_def)
  qed
  from il unv earlier i(3)
  show "\<exists>i<length ?cs. node_n (h ! (?cs ! i)) = 0 \<and>
             (\<forall>j<i. node_n (h ! (?cs ! j)) \<noteq> 0) \<and>
             select_child G h state node rt c =
               Some (Some (?cs ! i), snd (board_place G state (node_move (h ! (?cs ! i)))))"
    by blast
qed

text \<open>On \<open>demo_heap\<close> the first unvisited child is returned. On \<open>tie_heap\<close>, with
  the constant of the final choice, the exact score of the second child is the greater
  one, both computed scores are the double that follows 1, and the first child is
  returned.\<close>

theorem select_child_prefers_unvisited_witness:
  "select_child toy_game demo_heap [] 0 0 (Fin (1 / 2)) = Some (Some 2, [1]) \<and>
   1 + 1 / 10 ^ 12 * sqrt (ln 2000000002 / 1000000001)
     < 1 + 1 / 10 ^ 12 * sqrt (ln 2000000002 / 1000000000) \<and>
   child_score toy_game tie_heap 0 (rnd (1 / 10 ^ 12)) 1 = Some (Fin (1 + 1 / 2 ^ 52)) \<and>
   child_score toy_game tie_heap 0 (rnd (1 / 10 ^ 12)) 2 = Some (Fin (1 + 1 / 2 ^ 52)) \<and>
   select_child toy_game tie_heap [] 0 0 (rnd (1 / 10 ^ 12)) = Some (Some 1, [0])"
proof (intro conjI)
  let ?cs = "node_children (demo_heap ! 0)"
  have d0: "deref demo_heap 0 = Some (demo_heap ! 0)" by (simp add: demo_heap_def deref_def)
  have cs: "?cs = [1, 2, 3]" by (simp add: demo_heap_def)
  have stats: "\<forall>ch\<in>set ?cs. ch < length demo_heap \<and> 0 \<le> node_w (demo_heap ! ch) \<and>
      node_w (demo_heap ! ch) \<le> node_n (demo_heap ! ch)"
    by (simp add: demo_heap_def)
  have rn: "node_n (demo_heap ! 0) < 2 ^ 31" by (simp add: demo_heap_def)
  have c: "\<not> dbl_gt (Fin (1 / 2)) (Fin 2)" by simp
  have unv: "\<exists>ch\<in>set ?cs. node_n (demo_heap ! ch) = 0" by (simp add: demo_heap_def)
  have n1: "node_n (demo_heap ! 1) \<noteq> 0" and n2: "node_n (demo_heap ! 2) = 0"
    and m2: "node_move (demo_heap ! 2) = 1"
    by (simp_all add: demo_heap_def)
  from select_child_prefers_unvisited [OF d0 stats d0 rn c, of toy_game "[]"] unv
  obtain i where i: "i < length ?cs" "node_n (demo_heap ! (?cs ! i)) = 0"
    "\<forall>j<i. node_n (demo_heap ! (?cs ! j)) \<noteq> 0"
    "select_child toy_game demo_heap [] 0 0 (Fin (1 / 2)) =
       Some (Some (?cs ! i), snd (board_place toy_game [] (node_move (demo_heap ! (?cs ! i)))))"
    by blast
  from i(1) cs have "i = 0 \<or> i = 1 \<or> i = 2" by auto
  then have "i = 1"
  proof (elim disjE)
    assume "i = 0" with i(2) cs n1 show ?thesis by simp
  next
    assume "i = 1" then show ?thesis .
  next
    assume "i = 2"
    with i(3) have "node_n (demo_heap ! (?cs ! 1)) \<noteq> 0" by simp
    with cs n2 show ?thesis by simp
  qed
  with i(4) cs m2
  show "select_child toy_game demo_heap [] 0 0 (Fin (1 / 2)) = Some (Some 2, [1])"
    by (simp add: toy_game_def)
next
  have "0 < ln (2000000002 :: real)" by simp
  then have "ln (2000000002 :: real) / 1000000001 < ln 2000000002 / 1000000000"
    by (intro divide_strict_left_mono) simp_all
  then have "sqrt (ln (2000000002 :: real) / 1000000001) < sqrt (ln 2000000002 / 1000000000)"
    by (rule real_sqrt_less_mono)
  then show "1 + 1 / 10 ^ 12 * sqrt (ln 2000000002 / 1000000001)
      < 1 + 1 / 10 ^ 12 * sqrt (ln (2000000002 :: real) / 1000000000)"
    by simp
next
  let ?c = "rnd (1 / 10 ^ 12)"
  let ?ks = "node_children (tie_heap ! 0)"
  have t0: "deref tie_heap 0 = Some (tie_heap ! 0)" by (simp add: tie_heap_def deref_def)
  have ks: "?ks = [1, 2]" by (simp add: tie_heap_def)
  have rn: "3 ^ 16 \<le> node_n (tie_heap ! 0)" "node_n (tie_heap ! 0) < 2 ^ 31"
    by (simp_all add: tie_heap_def)
  have k1: "10 ^ 9 \<le> node_n (tie_heap ! 1)" "node_n (tie_heap ! 1) \<le> 10 ^ 9 + 1"
      "node_w (tie_heap ! 1) = node_n (tie_heap ! 1)"
    and k2: "10 ^ 9 \<le> node_n (tie_heap ! 2)" "node_n (tie_heap ! 2) \<le> 10 ^ 9 + 1"
      "node_w (tie_heap ! 2) = node_n (tie_heap ! 2)"
    and nz: "node_n (tie_heap ! 1) \<noteq> 0" "node_n (tie_heap ! 2) \<noteq> 0"
    and len: "length tie_heap = 3" and m1: "node_move (tie_heap ! 1) = 0"
    by (simp_all add: tie_heap_def)
  show s1: "child_score toy_game tie_heap 0 ?c 1 = Some (Fin (1 + 1 / 2 ^ 52))"
    using child_score_visited [OF _ nz(1) t0, of toy_game ?c] len
      uct_final_tie [OF rn k1, of toy_game] by simp
  show s2: "child_score toy_game tie_heap 0 ?c 2 = Some (Fin (1 + 1 / 2 ^ 52))"
    using child_score_visited [OF _ nz(2) t0, of toy_game ?c] len
      uct_final_tie [OF rn k2, of toy_game] by simp
  have stats: "\<forall>ch\<in>set ?ks. ch < length tie_heap \<and> 0 \<le> node_w (tie_heap ! ch) \<and>
      node_w (tie_heap ! ch) \<le> node_n (tie_heap ! ch)"
    by (simp add: tie_heap_def)
  have c: "\<not> dbl_gt ?c (Fin 2)"
  proof -
    from final_constant obtain x where
      x: "?c = Fin x" "1 / 2 ^ 40 \<le> x" "x \<le> 1 / 2 ^ 39" by (rule dbl_withinE)
    from x(3) have "x \<le> 2" by (rule order_trans) simp
    with x(1) show ?thesis by simp
  qed
  have defined: "\<forall>ch\<in>set ?ks. child_score toy_game tie_heap 0 ?c ch \<noteq> None"
    using s1 s2 by (simp add: ks)
  have gt: "\<forall>ch\<in>set ?ks. dbl_gt (score_of toy_game tie_heap 0 ?c ch) (Fin (- 1))"
    using s1 s2 by (simp add: ks score_of_def)
  have ne: "?ks \<noteq> []" by (simp add: ks)
  from select_child_some [OF t0 ne defined gt, of "[]"] obtain best state' where
    ret: "select_child toy_game tie_heap [] 0 0 ?c = Some (Some best, state')" by blast
  with select_child_prefers_unvisited [OF t0 stats t0 rn(2) c, of toy_game "[]"]
  obtain i where i: "first_best (map (score_of toy_game tie_heap 0 ?c) ?ks) i" "best = ?ks ! i"
    by blast
  define ss where "ss = map (score_of toy_game tie_heap 0 ?c) ?ks"
  have ss: "ss = [Fin (1 + 1 / 2 ^ 52), Fin (1 + 1 / 2 ^ 52)]"
    using s1 s2 by (simp add: ss_def ks score_of_def)
  from i(1) have fb: "i < length ss" "\<forall>j<i. ss ! j \<noteq> ss ! i"
    unfolding first_best_def ss_def by blast+
  have "i = 0"
  proof (rule ccontr)
    assume "i \<noteq> 0"
    with fb(1) ss have "i = 1" by simp
    with fb(2) have "ss ! 0 \<noteq> ss ! 1" by simp
    with ss show False by simp
  qed
  with i(2) ks have "best = 1" by simp
  with ret select_child_state [OF ret] m1
  show "select_child toy_game tie_heap [] 0 0 ?c = Some (Some 1, [0])"
    by (simp add: toy_game_def)
qed

subsection \<open>Expansion\<close>

lemma expand_loop_closed:
  assumes "node < length h" and "reverse_player (node_placer (h ! node)) = Some p"
  shows "expand_loop G state node ms h =
     Some (h[node := (h ! node)\<lparr>node_children := node_children (h ! node) @
                new_addrs (\<lambda>m. fst (board_place G state m)) (length h) ms\<rparr>]
           @ map (expanded_cell G state node p) ms)"
  using assms
proof (induction ms arbitrary: h)
  case Nil
  then show ?case by simp
next
  case (Cons m ms)
  let ?legal = "\<lambda>m. fst (board_place G state m)"
  let ?h1 = "h @ [Node_new G]"
  have d: "deref ?h1 node = Some (h ! node)"
    using Cons.prems(1) by (simp add: deref_def nth_append)
  show ?case
  proof (cases "?legal m")
    case False
    have "expand_loop G state node (m # ms) h = expand_loop G state node ms ?h1"
      using d Cons.prems(2) False by (simp add: Let_def)
    also have "\<dots> = Some (?h1[node := (?h1 ! node)\<lparr>node_children := node_children (?h1 ! node) @
                new_addrs ?legal (length ?h1) ms\<rparr>] @ map (expanded_cell G state node p) ms)"
      using Cons.prems by (intro Cons.IH) (simp_all add: nth_append)
    finally show ?thesis
      using Cons.prems(1) False
      by (simp add: nth_append list_update_append expanded_cell_def)
  next
    case True
    let ?h3 = "h[node := (h ! node)\<lparr>node_children := node_children (h ! node) @ [length h]\<rparr>]
               @ [(Node_new G)\<lparr>node_move := m, node_placer := p, node_parent := Some node\<rparr>]"
    have "expand_loop G state node (m # ms) h = expand_loop G state node ms ?h3"
      using d Cons.prems True
      by (simp add: Let_def nth_append list_update_append)
    also have "\<dots> = Some (?h3[node := (?h3 ! node)\<lparr>node_children := node_children (?h3 ! node) @
                new_addrs ?legal (length ?h3) ms\<rparr>] @ map (expanded_cell G state node p) ms)"
      using Cons.prems by (intro Cons.IH) (simp_all add: nth_append)
    finally show ?thesis
      using Cons.prems(1) True
      by (simp add: nth_append list_update_append expanded_cell_def)
  qed
qed

lemma new_addrs_range:
  "k \<in> set (new_addrs legal a ms) \<Longrightarrow> a \<le> k \<and> k < a + length ms \<and> legal (ms ! (k - a))"
proof (induction ms arbitrary: a)
  case Nil
  then show ?case by simp
next
  case (Cons m ms)
  show ?case
  proof (cases "k = a")
    case True
    with Cons.prems Cons.IH [of "Suc a"] show ?thesis
      by (auto split: if_splits)
  next
    case False
    with Cons.prems have "k \<in> set (new_addrs legal (Suc a) ms)" by (auto split: if_splits)
    from Cons.IH [OF this] show ?thesis by (auto simp: nth_Cons' Suc_diff_le)
  qed
qed

lemma new_addrs_moves:
  "map (\<lambda>k. ms ! (k - a)) (new_addrs legal a ms) = filter legal ms"
proof (induction ms arbitrary: a)
  case Nil
  then show ?case by simp
next
  case (Cons m ms)
  have "map (\<lambda>k. (m # ms) ! (k - a)) (new_addrs legal (Suc a) ms) =
        map (\<lambda>k. ms ! (k - Suc a)) (new_addrs legal (Suc a) ms)"
  proof (rule map_cong [OF refl])
    fix k assume "k \<in> set (new_addrs legal (Suc a) ms)"
    then have "Suc a \<le> k" using new_addrs_range by blast
    then show "(m # ms) ! (k - a) = ms ! (k - Suc a)" by (simp add: nth_Cons' Suc_diff_le)
  qed
  with Cons.IH [of "Suc a"] show ?case by simp
qed

lemma new_addrs_distinct: "distinct (new_addrs legal a ms)"
proof (induction ms arbitrary: a)
  case Nil
  then show ?case by simp
next
  case (Cons m ms)
  have "a \<notin> set (new_addrs legal (Suc a) ms)" using new_addrs_range [of a legal "Suc a" ms] by auto
  with Cons.IH [of "Suc a"] show ?case by simp
qed

lemma new_addrs_empty: "new_addrs legal a ms = [] \<longleftrightarrow> filter legal ms = []"
  by (induction ms arbitrary: a) auto

lemma expand_closed:
  assumes "node < length h" and "reverse_player (node_placer (h ! node)) = Some p"
    and "std_shuffle G (space ag) (engine ag) = (sp, e)"
  shows "expand G ag h state node =
     Some (node_children (h ! node) @ new_addrs (\<lambda>m. fst (board_place G state m)) (length h) sp = [],
           ag\<lparr>space := sp, engine := e\<rparr>,
           h[node := (h ! node)\<lparr>node_children := node_children (h ! node) @
                new_addrs (\<lambda>m. fst (board_place G state m)) (length h) sp\<rparr>]
           @ map (expanded_cell G state node p) sp)"
  using assms
  by (simp add: expand_def expand_loop_closed deref_def nth_append)

lemma reverse_player_opposite:
  "reverse_player Black = Some White" "reverse_player White = Some Black"
  "reverse_player Empty = None"
  by (simp_all add: reverse_player_def)

text \<open>
  C5. Expansion of a leaf creates, for every candidate move of the shuffled vector that
  is legal from the board snapshot, in that order, exactly one new child: its mover is
  the opposite of the leaf's (white under a black leaf, black under a white one, which
  is what \<^verbatim>\<open>reverse_player\<close> returns), its move the candidate, its counters 0, its parent
  the leaf, and it has no children. The nodes the heap already held are untouched but for
  the leaf's \<^verbatim>\<open>children\<close>. The result is true exactly when no child was created.
\<close>

theorem expand_creates_legal_children:
  assumes "deref h node = Some nd" and "node_children nd = []"
    and "node_placer nd = Black \<or> node_placer nd = White"
    and "std_shuffle G (space ag) (engine ag) = (sp, e)"
  shows "\<exists>t h'. expand G ag h state node = Some (t, ag\<lparr>space := sp, engine := e\<rparr>, h') \<and>
     (t \<longleftrightarrow> filter (\<lambda>m. fst (board_place G state m)) sp = []) \<and>
     map (\<lambda>k. node_move (h' ! k)) (node_children (h' ! node)) =
       filter (\<lambda>m. fst (board_place G state m)) sp \<and>
     distinct (node_children (h' ! node)) \<and>
     (\<forall>k\<in>set (node_children (h' ! node)).
        length h \<le> k \<and> k < length h' \<and> node_parent (h' ! k) = Some node \<and>
        node_placer (h' ! k) = (if node_placer nd = Black then White else Black) \<and>
        reverse_player (node_placer nd) = Some (node_placer (h' ! k)) \<and>
        node_placer (h' ! k) \<noteq> node_placer nd \<and>
        node_n (h' ! k) = 0 \<and> node_w (h' ! k) = 0 \<and> node_children (h' ! k) = []) \<and>
     (\<forall>a<length h. a \<noteq> node \<longrightarrow> h' ! a = h ! a) \<and>
     h' ! node = nd\<lparr>node_children := node_children (h' ! node)\<rparr>"
proof -
  let ?legal = "\<lambda>m. fst (board_place G state m)"
  define p where "p = (if node_placer nd = Black then White else Black)"
  have rp: "reverse_player (node_placer nd) = Some p" and pn: "p \<noteq> node_placer nd"
    using assms(3) by (auto simp: p_def reverse_player_opposite)
  define kids where "kids = new_addrs ?legal (length h) sp"
  define h' where "h' = h[node := (h ! node)\<lparr>node_children := node_children (h ! node) @ kids\<rparr>]
           @ map (expanded_cell G state node p) sp"
  from assms(1) have in_h: "node < length h" and nd: "h ! node = nd"
    by (auto simp: deref_def split: if_splits)
  have f1: "expand G ag h state node = Some (kids = [], ag\<lparr>space := sp, engine := e\<rparr>, h')"
    using expand_closed [OF in_h _ assms(4), of p state] assms(2) rp nd
    by (simp add: h'_def kids_def)
  have f2: "(kids = []) \<longleftrightarrow> filter ?legal sp = []"
    by (simp add: kids_def new_addrs_empty)
  have at_node: "h' ! node = nd\<lparr>node_children := kids\<rparr>"
    using in_h nd assms(2) by (simp add: h'_def nth_append)
  then have kids: "node_children (h' ! node) = kids" by simp
  have len: "length h' = length h + length sp" by (simp add: h'_def)
  have cell: "h' ! k = (Node_new G)\<lparr>node_move := sp ! (k - length h), node_placer := p,
       node_parent := Some node\<rparr>" if "k \<in> set kids" for k
  proof -
    from new_addrs_range [OF that [unfolded kids_def]]
    have "length h \<le> k" "k - length h < length sp" "?legal (sp ! (k - length h))" by auto
    then show ?thesis by (simp add: h'_def nth_append expanded_cell_def)
  qed
  have f3: "map (\<lambda>k. node_move (h' ! k)) (node_children (h' ! node)) = filter ?legal sp"
  proof -
    have "map (\<lambda>k. node_move (h' ! k)) kids = map (\<lambda>k. sp ! (k - length h)) kids"
      by (rule map_cong [OF refl]) (simp add: cell)
    then show ?thesis unfolding kids by (simp add: kids_def new_addrs_moves)
  qed
  have f4: "distinct (node_children (h' ! node))"
    unfolding kids by (simp add: kids_def new_addrs_distinct)
  have f5: "\<forall>k\<in>set (node_children (h' ! node)).
        length h \<le> k \<and> k < length h' \<and> node_parent (h' ! k) = Some node \<and>
        node_placer (h' ! k) = p \<and>
        reverse_player (node_placer nd) = Some (node_placer (h' ! k)) \<and>
        node_placer (h' ! k) \<noteq> node_placer nd \<and>
        node_n (h' ! k) = 0 \<and> node_w (h' ! k) = 0 \<and> node_children (h' ! k) = []"
    unfolding kids
  proof
    fix k assume k: "k \<in> set kids"
    from new_addrs_range [OF k [unfolded kids_def]] len
    have "length h \<le> k" "k < length h'" by auto
    then show "length h \<le> k \<and> k < length h' \<and> node_parent (h' ! k) = Some node \<and>
        node_placer (h' ! k) = p \<and>
        reverse_player (node_placer nd) = Some (node_placer (h' ! k)) \<and>
        node_placer (h' ! k) \<noteq> node_placer nd \<and>
        node_n (h' ! k) = 0 \<and> node_w (h' ! k) = 0 \<and> node_children (h' ! k) = []"
      using rp pn by (simp add: cell [OF k] Node_new_def)
  qed
  have f6: "\<forall>a<length h. a \<noteq> node \<longrightarrow> h' ! a = h ! a"
    by (simp add: h'_def nth_append)
  have f7: "h' ! node = nd\<lparr>node_children := node_children (h' ! node)\<rparr>"
    unfolding kids by (rule at_node)
  from f1 f2 f3 f4 f5 [unfolded p_def] f6 f7 show ?thesis by blast
qed

theorem expand_creates_legal_children_witness:
  "\<exists>t h'. expand toy_game (toy_agent 1) [(Node_new toy_game)\<lparr>node_placer := White\<rparr>] [] 0 =
       Some (t, (toy_agent 1)\<lparr>space := [2, 1, 0], engine := 1\<rparr>, h') \<and> \<not> t \<and>
     map (\<lambda>k. node_move (h' ! k)) (node_children (h' ! 0)) = [2, 1, 0] \<and>
     map (\<lambda>k. node_placer (h' ! k)) (node_children (h' ! 0)) = [Black, Black, Black] \<and>
     distinct (node_children (h' ! 0))"
proof -
  let ?nd = "(Node_new toy_game)\<lparr>node_placer := White\<rparr>"
  let ?h = "[?nd]"
  have a1: "deref ?h 0 = Some ?nd"
    by (simp add: deref_def)
  have a2: "node_children ?nd = []"
    by (simp add: Node_new_def)
  have a3: "node_placer ?nd = Black \<or> node_placer ?nd = White"
    by simp
  have a4: "std_shuffle toy_game (space (toy_agent 1)) (engine (toy_agent 1)) = ([2, 1, 0], 1)"
    by (simp add: toy_game_def toy_agent_def)
  have legal: "filter (\<lambda>m. fst (board_place toy_game [] m)) [2, 1, 0] = [2, 1, 0]"
    by (simp add: toy_game_def)
  from expand_creates_legal_children [OF a1 a2 a3 a4, of "[]"] obtain t h' where
    r: "expand toy_game (toy_agent 1) ?h [] 0 =
          Some (t, (toy_agent 1)\<lparr>space := [2, 1, 0], engine := 1\<rparr>, h')"
       "t \<longleftrightarrow> filter (\<lambda>m. fst (board_place toy_game [] m)) [2, 1, 0] = []"
       "map (\<lambda>k. node_move (h' ! k)) (node_children (h' ! 0)) =
          filter (\<lambda>m. fst (board_place toy_game [] m)) [2, 1, 0]"
       "distinct (node_children (h' ! 0))"
       "\<forall>k\<in>set (node_children (h' ! 0)).
          node_placer (h' ! k) = (if node_placer ?nd = Black then White else Black)"
    by blast
  from r(3) legal have "length (node_children (h' ! 0)) = 3"
    by (metis length_map length_Cons list.size(3) numeral_3_eq_3)
  then obtain a b c where kids: "node_children (h' ! 0) = [a, b, c]"
    by (auto simp: length_Suc_conv numeral_3_eq_3)
  from r(5) have "map (\<lambda>k. node_placer (h' ! k)) (node_children (h' ! 0)) = [Black, Black, Black]"
    by (simp add: kids)
  with r(1,2,3,4) legal show ?thesis by auto
qed

subsection \<open>Rollout\<close>

lemma simulate_pass_fold:
  "simulate_pass G ms (b, f) =
     (foldl (place_if_legal G) b ms,
      f \<or> (\<exists>i<length ms. fst (board_place G (foldl (place_if_legal G) b (take i ms)) (ms ! i))))"
proof (induction ms arbitrary: b f)
  case Nil
  then show ?case by simp
next
  case (Cons m ms)
  have ex: "(\<exists>i<Suc k. P i) \<longleftrightarrow> P 0 \<or> (\<exists>i<k. P (Suc i))" for P k
    by (auto simp: less_Suc_eq_0_disj)
  show ?case
    by (simp add: Cons.IH ex place_if_legal_def)
qed

lemma simulate_pass_idle:
  "\<not> snd (simulate_pass G ms (b, f)) \<Longrightarrow>
   fst (simulate_pass G ms (b, f)) = b \<and> (\<forall>m\<in>set ms. \<not> fst (board_place G b m))"
proof (induction ms arbitrary: b f)
  case Nil
  then show ?case by simp
next
  case (Cons m ms)
  show ?case
  proof (cases "fst (board_place G b m)")
    case True
    with Cons.prems have "\<not> snd (simulate_pass G ms (snd (board_place G b m), True))" by simp
    then show ?thesis by (simp add: simulate_pass_fold)
  next
    case False
    with Cons.prems Cons.IH [of b f] show ?thesis by simp
  qed
qed

lemma simulate_pass_flag: "f \<Longrightarrow> snd (simulate_pass G ms (b, f))"
  by (simp add: simulate_pass_fold)

lemma simulate_pass_mu_le:
  assumes "game_wf G mu"
  shows "mu (fst (simulate_pass G ms (b, f))) \<le> mu b"
proof (induction ms arbitrary: b f)
  case Nil
  then show ?case by simp
next
  case (Cons m ms)
  show ?case
  proof (cases "fst (board_place G b m)")
    case True
    with assms have "mu (snd (board_place G b m)) < mu b" by (simp add: game_wf_def)
    with Cons.IH [of "snd (board_place G b m)" True] True show ?thesis by simp
  next
    case False
    with Cons.IH [of b f] show ?thesis by simp
  qed
qed

lemma simulate_pass_mu_less:
  assumes "game_wf G mu"
  shows "snd (simulate_pass G ms (b, False)) \<Longrightarrow> mu (fst (simulate_pass G ms (b, False))) < mu b"
proof (induction ms arbitrary: b)
  case Nil
  then show ?case by simp
next
  case (Cons m ms)
  show ?case
  proof (cases "fst (board_place G b m)")
    case True
    with assms have "mu (snd (board_place G b m)) < mu b" by (simp add: game_wf_def)
    with simulate_pass_mu_le [OF assms, of ms "snd (board_place G b m)" True] True
    show ?thesis by simp
  next
    case False
    with Cons.prems Cons.IH [of b] show ?thesis by simp
  qed
qed

lemma simulate_loop_total:
  assumes "game_wf G mu"
  shows "\<exists>ag' b'. simulate_loop G ag b = Some (ag', b') \<and>
     (\<forall>m\<in>set (space ag'). \<not> fst (board_place G b' m)) \<and>
     mset (space ag') = mset (space ag) \<and> who ag' = who ag \<and>
     simulation_times ag' = simulation_times ag"
proof (induction "mu b" arbitrary: ag b rule: less_induct)
  case less
  obtain sp e where sh: "std_shuffle G (space ag) (engine ag) = (sp, e)" by (cases "std_shuffle G (space ag) (engine ag)")
  obtain b1 f where pass: "simulate_pass G sp (b, False) = (b1, f)" by (cases "simulate_pass G sp (b, False)")
  let ?ag1 = "ag\<lparr>space := sp, engine := e\<rparr>"
  have perm: "mset sp = mset (space ag)"
    using assms sh by (metis fst_conv game_wf_def)
  show ?case
  proof (cases f)
    case True
    then have "mu b1 < mu b"
      using simulate_pass_mu_less [OF assms, of sp b] pass by simp
    from less [OF this, of ?ag1] obtain ag' b' where
      r: "simulate_loop G ?ag1 b1 = Some (ag', b')"
        "\<forall>m\<in>set (space ag'). \<not> fst (board_place G b' m)"
        "mset (space ag') = mset (space ?ag1)" "who ag' = who ?ag1"
        "simulation_times ag' = simulation_times ?ag1" by blast
    have "simulate_loop G ag b = simulate_loop G ?ag1 b1"
      using sh pass True by (subst simulate_loop.simps) simp
    with r perm show ?thesis by simp
  next
    case False
    have "simulate_loop G ag b = Some (?ag1, b1)"
      using sh pass False by (subst simulate_loop.simps) simp
    moreover from simulate_pass_idle [of G sp b False] pass False
    have "b1 = b" "\<forall>m\<in>set sp. \<not> fst (board_place G b m)" by simp_all
    ultimately show ?thesis using perm by simp
  qed
qed

lemma simulate_total:
  assumes "game_wf G mu"
  shows "\<exists>result ag'. simulate G ag state node = Some (result, ag') \<and> (result = 0 \<or> result = 1) \<and>
     mset (space ag') = mset (space ag) \<and> who ag' = who ag \<and>
     simulation_times ag' = simulation_times ag"
proof -
  from simulate_loop_total [OF assms, of ag state] obtain ag' b' where
    "simulate_loop G ag state = Some (ag', b')" "mset (space ag') = mset (space ag)"
    "who ag' = who ag" "simulation_times ag' = simulation_times ag" by blast
  then show ?thesis by (simp add: simulate_def)
qed

lemma toy_game_wf: "game_wf toy_game toy_mu"
proof -
  have "card ({..<3::nat} - set b) - Suc 0 < card ({..<3::nat} - set b)"
    if "m < 3" "m \<notin> set b" for m b
  proof -
    have "0 < card ({..<3::nat} - set b)" using that by (auto simp: card_gt_0_iff)
    then show ?thesis by simp
  qed
  then show ?thesis by (auto simp: game_wf_def toy_game_def toy_mu_def)
qed

text \<open>
  C3, as the code has it. A rollout pass shuffles the candidates afresh and places every
  candidate that is legal on the board as the pass has left it so far, not only the first
  (the for loop has no \<^verbatim>\<open>break\<close>); the passes repeat while one placed a stone, so the
  rollout stops only after a full pass in which no candidate was legal, and then none is
  legal on the final board. On a game whose legal placements lower a measure, it stops.
\<close>

theorem simulate_places_every_legal_move:
  assumes "game_wf G mu"
  shows "simulate_pass G ms (b, f) =
       (foldl (place_if_legal G) b ms,
        f \<or> (\<exists>i<length ms. fst (board_place G (foldl (place_if_legal G) b (take i ms)) (ms ! i)))) \<and>
     simulate_loop G ag b =
       (case std_shuffle G (space ag) (engine ag) of
          (sp, e) \<Rightarrow>
            if \<exists>i<length sp. fst (board_place G (foldl (place_if_legal G) b (take i sp)) (sp ! i))
            then simulate_loop G (ag\<lparr>space := sp, engine := e\<rparr>) (foldl (place_if_legal G) b sp)
            else Some (ag\<lparr>space := sp, engine := e\<rparr>, foldl (place_if_legal G) b sp)) \<and>
     (\<exists>ag' b'. simulate_loop G ag b = Some (ag', b') \<and>
        (\<forall>m\<in>set (space ag'). \<not> fst (board_place G b' m)))"
proof (intro conjI)
  show "simulate_pass G ms (b, f) =
       (foldl (place_if_legal G) b ms,
        f \<or> (\<exists>i<length ms. fst (board_place G (foldl (place_if_legal G) b (take i ms)) (ms ! i))))"
    by (rule simulate_pass_fold)
  show "simulate_loop G ag b =
       (case std_shuffle G (space ag) (engine ag) of
          (sp, e) \<Rightarrow>
            if \<exists>i<length sp. fst (board_place G (foldl (place_if_legal G) b (take i sp)) (sp ! i))
            then simulate_loop G (ag\<lparr>space := sp, engine := e\<rparr>) (foldl (place_if_legal G) b sp)
            else Some (ag\<lparr>space := sp, engine := e\<rparr>, foldl (place_if_legal G) b sp))"
    by (subst simulate_loop.simps) (auto simp: simulate_pass_fold Let_def split: prod.splits)
  from simulate_loop_total [OF assms, of ag b]
  show "\<exists>ag' b'. simulate_loop G ag b = Some (ag', b') \<and>
        (\<forall>m\<in>set (space ag'). \<not> fst (board_place G b' m))" by blast
qed

theorem simulate_places_every_legal_move_witness:
  "simulate_pass toy_game [0, 1, 2] ([], False) = ([2, 1, 0], True) \<and>
   (\<exists>ag' b'. simulate_loop toy_game (toy_agent 1) [] = Some (ag', b'))"
proof -
  have "foldl (place_if_legal toy_game) [] [0, 1, 2] = [2, 1, 0]"
    by (simp add: place_if_legal_def toy_game_def)
  moreover have "\<exists>i<length [0::nat, 1, 2].
      fst (board_place toy_game (foldl (place_if_legal toy_game) [] (take i [0, 1, 2])) ([0, 1, 2] ! i))"
    by (rule exI [of _ 0]) (simp add: toy_game_def)
  moreover note run = simulate_places_every_legal_move [OF toy_game_wf, of "[0, 1, 2]" "[]" False
      "toy_agent 1"]
  moreover from run have "\<exists>ag' b'. simulate_loop toy_game (toy_agent 1) [] = Some (ag', b')"
    by blast
  ultimately show ?thesis by (simp only: simp_thms)
qed

theorem simulate_pass_not_first_legal_only:
  "simulate_pass toy_game [0, 1, 2] ([], False) = ([2, 1, 0], True) \<and>
   first_legal_pass toy_game [0, 1, 2] [] = ([0], True) \<and>
   simulate_pass toy_game [0, 1, 2] ([], False) \<noteq> first_legal_pass toy_game [0, 1, 2] []"
  by (simp add: toy_game_def)

subsection \<open>Expansion keeps the tree well formed\<close>

lemma expanded_heap_inv:
  assumes ptr: "ptr_ok rt h" and stats: "stats_ok rt h" and plc: "placers_ok rt h"
    and n1: "rt \<le> node" and n2: "node < length h" and n3: "linked rt h node"
    and p: "p \<noteq> Empty"
    and h': "h' = h[node := (h ! node)\<lparr>node_children := node_children (h ! node) @
                new_addrs (\<lambda>m. fst (board_place G state m)) (length h) ms\<rparr>]
              @ map (expanded_cell G state node p) ms"
  shows "ptr_ok rt h' \<and> stats_ok rt h' \<and> placers_ok rt h'"
proof -
  let ?legal = "\<lambda>m. fst (board_place G state m)"
  let ?kids = "new_addrs ?legal (length h) ms"
  have len: "length h' = length h + length ms" by (simp add: h')
  have old: "node_parent (h' ! a) = node_parent (h ! a) \<and> node_n (h' ! a) = node_n (h ! a) \<and>
      node_w (h' ! a) = node_w (h ! a) \<and> node_placer (h' ! a) = node_placer (h ! a) \<and>
      node_children (h' ! a) = (if a = node then node_children (h ! a) @ ?kids
                                 else node_children (h ! a))"
    if "a < length h" for a
    using that by (simp add: h' nth_append nth_list_update)
  have new: "h' ! a = expanded_cell G state node p (ms ! (a - length h))"
    if "length h \<le> a" "a < length h'" for a
    using that len by (simp add: h' nth_append)
  have new_fields: "node_children (h' ! a) = [] \<and> node_n (h' ! a) = 0 \<and> node_w (h' ! a) = 0 \<and>
      node_placer (h' ! a) \<noteq> Empty \<and> (node_parent (h' ! a) = None \<or> node_parent (h' ! a) = Some node)"
    if "length h \<le> a" "a < length h'" for a
    using p by (simp add: new [OF that] expanded_cell_def Node_new_def)
  have kid: "length h \<le> c \<and> c < length h' \<and> node_parent (h' ! c) = Some node"
    if "c \<in> set ?kids" for c
  proof -
    from new_addrs_range [OF that] have r: "length h \<le> c" "c < length h + length ms"
      "?legal (ms ! (c - length h))" by auto
    from r(1,2) len have "h' ! c = expanded_cell G state node p (ms ! (c - length h))"
      by (intro new) simp_all
    with r len show ?thesis by (simp add: expanded_cell_def)
  qed
  have lnk: "linked rt h' a" if "linked rt h a" "a < length h" for a
    using that old [of a] by (simp add: linked_def)
  from ptr have rt: "rt < length h" "node_parent (h ! rt) = None"
    and ch: "\<And>a c. rt \<le> a \<Longrightarrow> a < length h \<Longrightarrow> c \<in> set (node_children (h ! a)) \<Longrightarrow>
              a < c \<and> c < length h \<and> node_parent (h ! c) = Some a"
    and pa: "\<And>a q. rt \<le> a \<Longrightarrow> a < length h \<Longrightarrow> node_parent (h ! a) = Some q \<Longrightarrow>
              rt \<le> q \<and> q < a \<and> linked rt h q"
    unfolding ptr_ok_def by blast+
  have "ptr_ok rt h'"
    unfolding ptr_ok_def
  proof (intro conjI allI impI)
    show "rt < length h'" using rt(1) len by simp
    show "node_parent (h' ! rt) = None" using rt old [of rt] by simp
  next
    fix a c
    assume a: "rt \<le> a \<and> a < length h' \<and> c \<in> set (node_children (h' ! a))"
    have "a < c \<and> c < length h' \<and> node_parent (h' ! c) = Some a"
    proof (cases "a < length h")
      case False
      with a new_fields [of a] show ?thesis by simp
    next
      case True
      show ?thesis
      proof (cases "c \<in> set (node_children (h ! a))")
        case True
        from ch [OF _ \<open>a < length h\<close> True] a
        have "a < c" "c < length h" "node_parent (h ! c) = Some a" by auto
        with old [of c] len show ?thesis by simp
      next
        case False
        with a old [OF \<open>a < length h\<close>] have "a = node" "c \<in> set ?kids"
          by (auto split: if_splits)
        with kid [of c] n2 show ?thesis by simp
      qed
    qed
    then show "a < c" "c < length h'" "node_parent (h' ! c) = Some a" by simp_all
  next
    fix a q
    assume a: "rt \<le> a \<and> a < length h' \<and> node_parent (h' ! a) = Some q"
    have "rt \<le> q \<and> q < a \<and> linked rt h' q"
    proof (cases "a < length h")
      case True
      with a old [of a] have "node_parent (h ! a) = Some q" by simp
      from pa [OF _ True this] a have q: "rt \<le> q" "q < a" "linked rt h q" by auto
      with True lnk [of q] show ?thesis by simp
    next
      case False
      with a new_fields [of a] have "q = node" by auto
      with False n1 n2 lnk [OF n3 n2] show ?thesis by simp
    qed
    then show "rt \<le> q" "q < a" "linked rt h' q" by simp_all
  qed
  moreover have "stats_ok rt h'"
    unfolding stats_ok_def
  proof (intro allI impI)
    fix a assume a: "rt \<le> a \<and> a < length h'"
    show "0 \<le> node_w (h' ! a) \<and> node_w (h' ! a) \<le> node_n (h' ! a)"
    proof (cases "a < length h")
      case True
      with stats a old [of a] show ?thesis by (simp add: stats_ok_def)
    next
      case False
      with a new_fields [of a] show ?thesis by simp
    qed
  qed
  moreover have "placers_ok rt h'"
    unfolding placers_ok_def
  proof (intro allI impI)
    fix a assume a: "rt \<le> a \<and> a < length h'"
    show "node_placer (h' ! a) \<noteq> Empty"
    proof (cases "a < length h")
      case True
      with plc a old [of a] show ?thesis by (simp add: placers_ok_def)
    next
      case False
      with a new_fields [of a] show ?thesis by simp
    qed
  qed
  ultimately show ?thesis by simp
qed

subsection \<open>Backpropagation\<close>

lemma ptr_ok_same_links:
  assumes "ptr_ok rt h" and "length h' = length h"
    and "\<forall>b<length h. node_parent (h' ! b) = node_parent (h ! b) \<and>
           node_children (h' ! b) = node_children (h ! b)"
  shows "ptr_ok rt h'"
proof -
  from assms(1) have rt: "rt < length h" "node_parent (h ! rt) = None"
    and ch: "\<And>a c. rt \<le> a \<Longrightarrow> a < length h \<Longrightarrow> c \<in> set (node_children (h ! a)) \<Longrightarrow>
              a < c \<and> c < length h \<and> node_parent (h ! c) = Some a"
    and pa: "\<And>a q. rt \<le> a \<Longrightarrow> a < length h \<Longrightarrow> node_parent (h ! a) = Some q \<Longrightarrow>
              rt \<le> q \<and> q < a \<and> linked rt h q"
    unfolding ptr_ok_def by blast+
  show ?thesis
    unfolding ptr_ok_def
  proof (intro conjI allI impI)
    show "rt < length h'" using rt assms(2) by simp
    show "node_parent (h' ! rt) = None" using rt assms(3) by simp
  next
    fix a c assume a: "rt \<le> a \<and> a < length h' \<and> c \<in> set (node_children (h' ! a))"
    with assms(2,3) have "a < length h" "c \<in> set (node_children (h ! a))" by auto
    from ch [OF _ this] a have "a < c" "c < length h" "node_parent (h ! c) = Some a" by auto
    with assms(2,3) show "a < c" "c < length h'" "node_parent (h' ! c) = Some a" by auto
  next
    fix a q assume a: "rt \<le> a \<and> a < length h' \<and> node_parent (h' ! a) = Some q"
    with assms(2,3) have "a < length h" "node_parent (h ! a) = Some q" by auto
    from pa [OF _ this] a have q: "rt \<le> q" "q < a" "linked rt h q" by auto
    with \<open>a < length h\<close> assms(3) have "linked rt h' q" by (simp add: linked_def)
    with q show "rt \<le> q" "q < a" "linked rt h' q" by simp_all
  qed
qed

lemma backprop_loop_spec:
  assumes "ptr_ok rt h" and "rt \<le> a" and "a < length h" and "linked rt h a"
  shows "\<exists>h'. backprop_loop h (Some a) res = Some h' \<and> length h' = length h \<and>
     (\<forall>b<length h.
        node_parent (h' ! b) = node_parent (h ! b) \<and>
        node_children (h' ! b) = node_children (h ! b) \<and>
        node_placer (h' ! b) = node_placer (h ! b) \<and>
        node_move (h' ! b) = node_move (h ! b) \<and>
        (node_n (h' ! b) = node_n (h ! b) \<and> node_w (h' ! b) = node_w (h ! b) \<or>
         rt \<le> b \<and> b \<le> a \<and> node_n (h' ! b) = node_n (h ! b) + 1 \<and>
           node_w (h' ! b) = node_w (h ! b) + res)) \<and>
     (\<forall>b<length h. b < rt \<or> a < b \<longrightarrow> h' ! b = h ! b) \<and>
     node_n (h' ! rt) = node_n (h ! rt) + 1 \<and>
     node_n (h' ! a) = node_n (h ! a) + 1 \<and> node_w (h' ! a) = node_w (h ! a) + res"
  using assms
proof (induction a arbitrary: h rule: less_induct)
  case (less a)
  let ?nd = "h ! a"
  let ?h1 = "h[a := ?nd\<lparr>node_n := node_n ?nd + 1, node_w := node_w ?nd + res\<rparr>]"
  have step: "backprop_loop h (Some a) res = backprop_loop ?h1 (node_parent ?nd) res"
    using less.prems(3) by (subst backprop_loop.simps) (simp add: deref_def)
  have same: "\<forall>b<length h. node_parent (?h1 ! b) = node_parent (h ! b) \<and>
           node_children (?h1 ! b) = node_children (h ! b)"
    using less.prems(3) by (simp add: nth_list_update)
  have ptr1: "ptr_ok rt ?h1"
    by (rule ptr_ok_same_links [OF less.prems(1) _ same]) simp
  show ?case
  proof (cases "node_parent ?nd")
    case None
    with less.prems(4) have "a = rt" by (simp add: linked_def)
    moreover have "backprop_loop h (Some a) res = Some ?h1"
      using step None by (subst (asm) backprop_loop.simps) simp
    ultimately show ?thesis using less.prems(3)
      by (auto simp: nth_list_update)
  next
    case (Some q)
    from less.prems(1,2,3) Some have q: "rt \<le> q" "q < a" "linked rt h q"
      unfolding ptr_ok_def by blast+
    then have q1: "q < length ?h1" "linked rt ?h1 q"
      using less.prems(3) by (simp_all add: linked_def nth_list_update)
    from less.IH [OF q(2) ptr1 q(1) q1, of ] obtain h' where
      run: "backprop_loop ?h1 (Some q) res = Some h'" and len: "length h' = length ?h1" and
      fields: "\<forall>b<length ?h1.
        node_parent (h' ! b) = node_parent (?h1 ! b) \<and>
        node_children (h' ! b) = node_children (?h1 ! b) \<and>
        node_placer (h' ! b) = node_placer (?h1 ! b) \<and>
        node_move (h' ! b) = node_move (?h1 ! b) \<and>
        (node_n (h' ! b) = node_n (?h1 ! b) \<and> node_w (h' ! b) = node_w (?h1 ! b) \<or>
         rt \<le> b \<and> b \<le> q \<and> node_n (h' ! b) = node_n (?h1 ! b) + 1 \<and>
           node_w (h' ! b) = node_w (?h1 ! b) + res)" and
      frame: "\<forall>b<length ?h1. b < rt \<or> q < b \<longrightarrow> h' ! b = ?h1 ! b" and
      root: "node_n (h' ! rt) = node_n (?h1 ! rt) + 1"
      by blast
    have at_a: "h' ! a = ?h1 ! a" using frame q(2) less.prems(3) by simp
    have r1: "backprop_loop h (Some a) res = Some h'" using step Some run by simp
    have r2: "length h' = length h" using len by simp
    have r3: "\<forall>b<length h.
        node_parent (h' ! b) = node_parent (h ! b) \<and>
        node_children (h' ! b) = node_children (h ! b) \<and>
        node_placer (h' ! b) = node_placer (h ! b) \<and>
        node_move (h' ! b) = node_move (h ! b) \<and>
        (node_n (h' ! b) = node_n (h ! b) \<and> node_w (h' ! b) = node_w (h ! b) \<or>
         rt \<le> b \<and> b \<le> a \<and> node_n (h' ! b) = node_n (h ! b) + 1 \<and>
           node_w (h' ! b) = node_w (h ! b) + res)"
    proof (intro allI impI)
      fix b assume b: "b < length h"
      show "node_parent (h' ! b) = node_parent (h ! b) \<and>
        node_children (h' ! b) = node_children (h ! b) \<and>
        node_placer (h' ! b) = node_placer (h ! b) \<and>
        node_move (h' ! b) = node_move (h ! b) \<and>
        (node_n (h' ! b) = node_n (h ! b) \<and> node_w (h' ! b) = node_w (h ! b) \<or>
         rt \<le> b \<and> b \<le> a \<and> node_n (h' ! b) = node_n (h ! b) + 1 \<and>
           node_w (h' ! b) = node_w (h ! b) + res)"
      proof (cases "b = a")
        case True
        with at_a b less.prems(2) show ?thesis by simp
      next
        case False
        then have "?h1 ! b = h ! b" by simp
        with fields b q(2) show ?thesis by auto
      qed
    qed
    have r4: "\<forall>b<length h. b < rt \<or> a < b \<longrightarrow> h' ! b = h ! b"
      using frame q less.prems(2) by (auto simp: nth_list_update)
    have r5: "node_n (h' ! rt) = node_n (h ! rt) + 1"
      using root q by (simp add: nth_list_update)
    have r6: "node_n (h' ! a) = node_n (h ! a) + 1 \<and> node_w (h' ! a) = node_w (h ! a) + res"
      using at_a less.prems(3) by simp
    from r1 r2 r3 r4 r5 r6 show ?thesis by blast
  qed
qed

subsection \<open>Selection ends at a linked leaf\<close>

lemma select_loop_total:
  assumes "ptr_ok rt h" and "stats_ok rt h" and "unexpanded rt h \<or> 1 \<le> node_n (h ! rt)"
    and "rt \<le> node" and "node < length h" and "linked rt h node"
  shows "\<exists>leaf state'. select_loop G h rt state node = Some (leaf, state') \<and>
     rt \<le> leaf \<and> leaf < length h \<and> linked rt h leaf \<and> node_children (h ! leaf) = [] \<and>
     (node_children (h ! node) = [] \<longrightarrow> leaf = node \<and> state' = state)"
  using assms(4-6)
proof (induction "length h - node" arbitrary: node state rule: less_induct)
  case less
  have d: "deref h node = Some (h ! node)" using less.prems(2) by (simp add: deref_def)
  show ?case
  proof (cases "node_children (h ! node) = []")
    case True
    then have "select_loop G h rt state node = Some (node, state)"
      using d by (subst select_loop.simps) simp
    with True less.prems show ?thesis by simp
  next
    case False
    then have "\<not> unexpanded rt h" using less.prems by (auto simp: unexpanded_def)
    with assms(3) have n: "1 \<le> node_n (h ! rt)" by simp
    from assms(1) have rt: "rt < length h" by (simp add: ptr_ok_def)
    then have dr: "deref h rt = Some (h ! rt)" by (simp add: deref_def)
    have kids: "\<forall>ch\<in>set (node_children (h ! node)). node < ch \<and> ch < length h \<and>
        node_parent (h ! ch) = Some node"
      using assms(1) less.prems unfolding ptr_ok_def by blast
    have st: "\<forall>ch\<in>set (node_children (h ! node)).
        ch < length h \<and> 0 \<le> node_n (h ! ch) \<and> 0 \<le> node_w (h ! ch)"
    proof
      fix ch assume "ch \<in> set (node_children (h ! node))"
      with kids less.prems(1) have "rt \<le> ch" "ch < length h" by auto
      with assms(2) show "ch < length h \<and> 0 \<le> node_n (h ! ch) \<and> 0 \<le> node_w (h ! ch)"
        by (auto simp: stats_ok_def)
    qed
    have "(0::real) < 1 / 2" by simp
    from select_child_returns [OF d False dr n st this, of G state]
    obtain best state' where
      sc: "select_child G h state node rt (Fin (1 / 2)) = Some (Some best, state')"
        "best \<in> set (node_children (h ! node))" by blast
    with kids have b: "node < best" "best < length h" "node_parent (h ! best) = Some node"
      by auto
    then have "length h - best < length h - node" "rt \<le> best" "linked rt h best"
      using less.prems(1) by (auto simp: linked_def)
    from less.hyps [OF this(1,2) b(2) this(3), of state'] obtain leaf state'' where
      r: "select_loop G h rt state' best = Some (leaf, state'')" "rt \<le> leaf" "leaf < length h"
        "linked rt h leaf" "node_children (h ! leaf) = []" by blast
    have "select_loop G h rt state node = select_loop G h rt state' best"
      using d False sc(1) by (subst select_loop.simps) simp
    with r False show ?thesis by simp
  qed
qed

subsection \<open>One pass of the search loop\<close>

lemma reverse_player_defined:
  "p \<noteq> Empty \<Longrightarrow> \<exists>q. reverse_player p = Some q \<and> q \<noteq> Empty"
  by (cases p) (simp_all add: reverse_player_def)

lemma expand_step:
  assumes wf: "game_wf G mu"
    and ptr: "ptr_ok rt h" and stats: "stats_ok rt h" and plc: "placers_ok rt h"
    and l1: "rt \<le> leaf" and l2: "leaf < length h" and l3: "linked rt h leaf"
  shows "\<exists>t ag1 h1. expand G ag h cb leaf = Some (t, ag1, h1) \<and>
     ptr_ok rt h1 \<and> stats_ok rt h1 \<and> placers_ok rt h1 \<and> length h \<le> length h1 \<and>
     linked rt h1 leaf \<and> (\<forall>a<rt. h1 ! a = h ! a) \<and> node_n (h1 ! rt) = node_n (h ! rt) \<and>
     mset (space ag1) = mset (space ag) \<and> who ag1 = who ag \<and>
     simulation_times ag1 = simulation_times ag \<and>
     ((\<forall>m\<in>set (space ag). \<not> fst (board_place G cb m)) \<longrightarrow>
        (\<forall>a<length h. node_children (h1 ! a) = node_children (h ! a)))"
proof -
  let ?legal = "\<lambda>m. fst (board_place G cb m)"
  obtain sp e where sh: "std_shuffle G (space ag) (engine ag) = (sp, e)"
    by (cases "std_shuffle G (space ag) (engine ag)")
  have perm: "mset sp = mset (space ag)"
    using wf sh by (metis fst_conv game_wf_def)
  from plc l1 l2 have "node_placer (h ! leaf) \<noteq> Empty" by (simp add: placers_ok_def)
  from reverse_player_defined [OF this] obtain p where
    p: "reverse_player (node_placer (h ! leaf)) = Some p" "p \<noteq> Empty" by blast
  define h1 where "h1 = h[leaf := (h ! leaf)\<lparr>node_children := node_children (h ! leaf) @
                new_addrs ?legal (length h) sp\<rparr>] @ map (expanded_cell G cb leaf p) sp"
  have run: "expand G ag h cb leaf =
      Some (node_children (h ! leaf) @ new_addrs ?legal (length h) sp = [],
            ag\<lparr>space := sp, engine := e\<rparr>, h1)"
    unfolding h1_def by (rule expand_closed [OF l2 p(1) sh])
  from expanded_heap_inv [OF ptr stats plc l1 l2 l3 p(2) h1_def]
  have inv1: "ptr_ok rt h1" "stats_ok rt h1" "placers_ok rt h1" by simp_all
  from ptr have rt: "rt < length h" by (simp add: ptr_ok_def)
  have len: "length h \<le> length h1" by (simp add: h1_def)
  have lnk: "linked rt h1 leaf"
    using l3 l2 by (simp add: linked_def h1_def nth_append)
  have frame: "\<forall>a<rt. h1 ! a = h ! a"
    using l1 rt by (simp add: h1_def nth_append)
  have rn: "node_n (h1 ! rt) = node_n (h ! rt)"
    using rt l2 by (simp add: h1_def nth_append nth_list_update)
  have idle: "\<forall>a<length h. node_children (h1 ! a) = node_children (h ! a)"
    if "\<forall>m\<in>set (space ag). \<not> ?legal m"
  proof -
    from perm have "set sp = set (space ag)" by (rule mset_eq_setD)
    with that have "filter ?legal sp = []" by (simp add: filter_empty_conv)
    then have "new_addrs ?legal (length h) sp = []" by (simp add: new_addrs_empty)
    then show ?thesis using l2 by (simp add: h1_def nth_append nth_list_update)
  qed
  from run inv1 len lnk frame rn perm idle show ?thesis by auto
qed

lemma backprop_step:
  assumes ptr: "ptr_ok rt h" and stats: "stats_ok rt h" and plc: "placers_ok rt h"
    and l1: "rt \<le> leaf" and l2: "leaf < length h" and l3: "linked rt h leaf"
    and res: "res = 0 \<or> res = 1"
  shows "\<exists>h2. backpropagation h (Some leaf) res = Some (True, h2) \<and>
     ptr_ok rt h2 \<and> stats_ok rt h2 \<and> placers_ok rt h2 \<and> length h2 = length h \<and>
     (\<forall>a<rt. h2 ! a = h ! a) \<and> node_n (h2 ! rt) = node_n (h ! rt) + 1 \<and>
     (\<forall>a<length h. node_children (h2 ! a) = node_children (h ! a))"
proof -
  from backprop_loop_spec [OF ptr l1 l2 l3, of res] obtain h2 where
    run: "backprop_loop h (Some leaf) res = Some h2" and len: "length h2 = length h" and
    fields: "\<forall>b<length h.
        node_parent (h2 ! b) = node_parent (h ! b) \<and>
        node_children (h2 ! b) = node_children (h ! b) \<and>
        node_placer (h2 ! b) = node_placer (h ! b) \<and>
        node_move (h2 ! b) = node_move (h ! b) \<and>
        (node_n (h2 ! b) = node_n (h ! b) \<and> node_w (h2 ! b) = node_w (h ! b) \<or>
         rt \<le> b \<and> b \<le> leaf \<and> node_n (h2 ! b) = node_n (h ! b) + 1 \<and>
           node_w (h2 ! b) = node_w (h ! b) + res)" and
    frame: "\<forall>b<length h. b < rt \<or> leaf < b \<longrightarrow> h2 ! b = h ! b" and
    root: "node_n (h2 ! rt) = node_n (h ! rt) + 1"
    by blast
  have r1: "backpropagation h (Some leaf) res = Some (True, h2)"
    using run by (simp add: backpropagation_def)
  have r2: "ptr_ok rt h2"
    using fields by (intro ptr_ok_same_links [OF ptr len]) simp
  have r3: "stats_ok rt h2"
    unfolding stats_ok_def
  proof (intro allI impI)
    fix a assume a: "rt \<le> a \<and> a < length h2"
    with stats len have "0 \<le> node_w (h ! a)" "node_w (h ! a) \<le> node_n (h ! a)"
      by (simp_all add: stats_ok_def)
    moreover from fields a len have
      "node_n (h2 ! a) = node_n (h ! a) \<and> node_w (h2 ! a) = node_w (h ! a) \<or>
       node_n (h2 ! a) = node_n (h ! a) + 1 \<and> node_w (h2 ! a) = node_w (h ! a) + res"
      by auto
    ultimately show "0 \<le> node_w (h2 ! a) \<and> node_w (h2 ! a) \<le> node_n (h2 ! a)"
      using res by auto
  qed
  have r4: "placers_ok rt h2"
    using plc fields len by (simp add: placers_ok_def)
  have r5: "\<forall>a<rt. h2 ! a = h ! a"
    using frame l1 l2 by auto
  from r1 r2 r3 r4 len r5 root fields show ?thesis by blast
qed

lemma iteration_inv:
  assumes wf: "game_wf G mu" and inv: "search_inv rt h"
  shows "\<exists>ag' h'. iteration G state rt (ag, h) = Some (ag', h') \<and> search_inv rt h' \<and>
     node_n (h' ! rt) = node_n (h ! rt) + 1 \<and> length h \<le> length h' \<and>
     (\<forall>a<rt. h' ! a = h ! a) \<and>
     mset (space ag') = mset (space ag) \<and> who ag' = who ag \<and>
     simulation_times ag' = simulation_times ag \<and>
     (node_children (h ! rt) = [] \<and> (\<forall>m\<in>set (space ag). \<not> fst (board_place G state m)) \<longrightarrow>
        node_children (h' ! rt) = [])"
proof -
  from inv have ptr: "ptr_ok rt h" and stats: "stats_ok rt h" and plc: "placers_ok rt h"
    and alt: "unexpanded rt h \<or> 1 \<le> node_n (h ! rt)"
    by (simp_all add: search_inv_def)
  from ptr have rt: "rt < length h" by (simp add: ptr_ok_def)
  have rl: "linked rt h rt" by (simp add: linked_def)
  from stats rt have rn: "0 \<le> node_n (h ! rt)" unfolding stats_ok_def by force
  from select_loop_total [OF ptr stats alt le_refl rt rl, of G state]
  obtain leaf cb where
    sel: "select G h state rt = Some (leaf, cb)" and l1: "rt \<le> leaf" and l2: "leaf < length h"
    and l3: "linked rt h leaf"
    and stay: "node_children (h ! rt) = [] \<longrightarrow> leaf = rt \<and> cb = state"
    unfolding select_def by blast
  have d: "deref h leaf = Some (h ! leaf)" using l2 by (simp add: deref_def)
  have "\<exists>ag1 h1 cb1.
      (if node_n (h ! leaf) = 0
       then (case expand G ag h cb leaf of
               None \<Rightarrow> None
             | Some (t, ag1, h1) \<Rightarrow>
                 (case deref h1 leaf of
                    None \<Rightarrow> None
                  | Some cn1 \<Rightarrow> Some (ag1, h1, action_apply G (node_move cn1) cb)))
       else Some (ag, h, cb)) = Some (ag1, h1, cb1) \<and>
      ptr_ok rt h1 \<and> stats_ok rt h1 \<and> placers_ok rt h1 \<and> length h \<le> length h1 \<and>
      linked rt h1 leaf \<and> (\<forall>a<rt. h1 ! a = h ! a) \<and> node_n (h1 ! rt) = node_n (h ! rt) \<and>
      mset (space ag1) = mset (space ag) \<and> who ag1 = who ag \<and>
      simulation_times ag1 = simulation_times ag \<and>
      ((\<forall>m\<in>set (space ag). \<not> fst (board_place G cb m)) \<longrightarrow>
         (\<forall>a<length h. node_children (h1 ! a) = node_children (h ! a)))"
  proof (cases "node_n (h ! leaf) = 0")
    case False
    with ptr stats plc l3 show ?thesis by simp
  next
    case True
    from expand_step [OF wf ptr stats plc l1 l2 l3, of ag cb] obtain t ag1 h1 where
      e: "expand G ag h cb leaf = Some (t, ag1, h1)" and
      rest: "ptr_ok rt h1" "stats_ok rt h1" "placers_ok rt h1" "length h \<le> length h1"
        "linked rt h1 leaf" "\<forall>a<rt. h1 ! a = h ! a" "node_n (h1 ! rt) = node_n (h ! rt)"
        "mset (space ag1) = mset (space ag)" "who ag1 = who ag"
        "simulation_times ag1 = simulation_times ag"
        "(\<forall>m\<in>set (space ag). \<not> fst (board_place G cb m)) \<longrightarrow>
         (\<forall>a<length h. node_children (h1 ! a) = node_children (h ! a))"
      by blast
    have "deref h1 leaf = Some (h1 ! leaf)" using l2 rest(4) by (simp add: deref_def)
    with True e rest show ?thesis by simp
  qed
  then obtain ag1 h1 cb1 where
    mid: "(if node_n (h ! leaf) = 0
       then (case expand G ag h cb leaf of
               None \<Rightarrow> None
             | Some (t, ag1, h1) \<Rightarrow>
                 (case deref h1 leaf of
                    None \<Rightarrow> None
                  | Some cn1 \<Rightarrow> Some (ag1, h1, action_apply G (node_move cn1) cb)))
       else Some (ag, h, cb)) = Some (ag1, h1, cb1)" and
    inv1: "ptr_ok rt h1" "stats_ok rt h1" "placers_ok rt h1" and len1: "length h \<le> length h1" and
    lnk1: "linked rt h1 leaf" and frame1: "\<forall>a<rt. h1 ! a = h ! a" and
    rn1: "node_n (h1 ! rt) = node_n (h ! rt)" and
    ag1: "mset (space ag1) = mset (space ag)" "who ag1 = who ag"
      "simulation_times ag1 = simulation_times ag" and
    idle1: "(\<forall>m\<in>set (space ag). \<not> fst (board_place G cb m)) \<longrightarrow>
         (\<forall>a<length h. node_children (h1 ! a) = node_children (h ! a))"
    by blast
  from simulate_total [OF wf, of ag1 cb1 leaf] obtain res ag2 where
    sim: "simulate G ag1 cb1 leaf = Some (res, ag2)" and res: "res = 0 \<or> res = 1" and
    ag2: "mset (space ag2) = mset (space ag1)" "who ag2 = who ag1"
      "simulation_times ag2 = simulation_times ag1"
    by blast
  have l2': "leaf < length h1" using l2 len1 by simp
  from backprop_step [OF inv1 l1 l2' lnk1 res] obtain h2 where
    bp: "backpropagation h1 (Some leaf) res = Some (True, h2)" and
    inv2: "ptr_ok rt h2" "stats_ok rt h2" "placers_ok rt h2" and len2: "length h2 = length h1" and
    frame2: "\<forall>a<rt. h2 ! a = h1 ! a" and rn2: "node_n (h2 ! rt) = node_n (h1 ! rt) + 1" and
    kids2: "\<forall>a<length h1. node_children (h2 ! a) = node_children (h1 ! a)"
    by blast
  have run: "iteration G state rt (ag, h) = Some (ag2, h2)"
    using sel d mid sim bp by simp
  have "1 \<le> node_n (h2 ! rt)" using rn2 rn1 rn by simp
  with inv2 have r2: "search_inv rt h2" by (simp add: search_inv_def)
  have r3: "node_n (h2 ! rt) = node_n (h ! rt) + 1" using rn2 rn1 by simp
  have r4: "length h \<le> length h2" using len1 len2 by simp
  have r5: "\<forall>a<rt. h2 ! a = h ! a" using frame1 frame2 by simp
  have r6: "node_children (h2 ! rt) = []"
    if "node_children (h ! rt) = []" "\<forall>m\<in>set (space ag). \<not> fst (board_place G state m)"
  proof -
    from that(1) stay have "cb = state" by simp
    with that(2) idle1 rt have "node_children (h1 ! rt) = node_children (h ! rt)" by simp
    moreover from kids2 rt len1 have "node_children (h2 ! rt) = node_children (h1 ! rt)" by simp
    ultimately show ?thesis using that(1) by simp
  qed
  from run r2 r3 r4 r5 ag1 ag2 r6 show ?thesis by auto
qed

lemma search_loop_inv:
  assumes wf: "game_wf G mu"
  shows "search_inv rt h \<Longrightarrow>
     \<exists>ag' h'. search_loop G state rt k (ag, h) = Some (ag', h') \<and> search_inv rt h' \<and>
       node_n (h' ! rt) = node_n (h ! rt) + int k \<and> length h \<le> length h' \<and>
       (\<forall>a<rt. h' ! a = h ! a) \<and>
       mset (space ag') = mset (space ag) \<and> who ag' = who ag \<and>
       simulation_times ag' = simulation_times ag \<and>
       (node_children (h ! rt) = [] \<and> (\<forall>m\<in>set (space ag). \<not> fst (board_place G state m)) \<longrightarrow>
          node_children (h' ! rt) = [])"
proof (induction k arbitrary: ag h)
  case 0
  then show ?case by simp
next
  case (Suc k)
  from iteration_inv [OF wf Suc.prems, of state ag] obtain ag1 h1 where
    it: "iteration G state rt (ag, h) = Some (ag1, h1)" and inv1: "search_inv rt h1" and
    rn1: "node_n (h1 ! rt) = node_n (h ! rt) + 1" and len1: "length h \<le> length h1" and
    frame1: "\<forall>a<rt. h1 ! a = h ! a" and
    ag1: "mset (space ag1) = mset (space ag)" "who ag1 = who ag"
      "simulation_times ag1 = simulation_times ag" and
    idle1: "node_children (h ! rt) = [] \<and> (\<forall>m\<in>set (space ag). \<not> fst (board_place G state m)) \<longrightarrow>
        node_children (h1 ! rt) = []"
    by blast
  from Suc.IH [OF inv1, of ag1] obtain ag' h' where
    run: "search_loop G state rt k (ag1, h1) = Some (ag', h')" and inv': "search_inv rt h'" and
    rn': "node_n (h' ! rt) = node_n (h1 ! rt) + int k" and len': "length h1 \<le> length h'" and
    frame': "\<forall>a<rt. h' ! a = h1 ! a" and
    ag': "mset (space ag') = mset (space ag1)" "who ag' = who ag1"
      "simulation_times ag' = simulation_times ag1" and
    idle': "node_children (h1 ! rt) = [] \<and> (\<forall>m\<in>set (space ag1). \<not> fst (board_place G state m)) \<longrightarrow>
        node_children (h' ! rt) = []"
    by blast
  have "set (space ag1) = set (space ag)" using ag1(1) by (rule mset_eq_setD)
  with idle1 idle' have idle: "node_children (h ! rt) = [] \<and>
      (\<forall>m\<in>set (space ag). \<not> fst (board_place G state m)) \<longrightarrow> node_children (h' ! rt) = []"
    by simp
  have "search_loop G state rt (Suc k) (ag, h) = Some (ag', h')" using it run by simp
  moreover have "node_n (h' ! rt) = node_n (h ! rt) + int (Suc k)" using rn' rn1 by simp
  moreover have "length h \<le> length h'" using len1 len' by simp
  moreover have "\<forall>a<rt. h' ! a = h ! a" using frame1 frame' by simp
  ultimately show ?case using inv' ag1 ag' idle by auto
qed

subsection \<open>The whole search\<close>

lemma search_total:
  assumes wf: "game_wf G mu" and who: "who ag \<noteq> Empty"
  shows "\<exists>ag' h'. search G ag h0 state = Some (ag', h') \<and> search_inv (length h0) h' \<and>
     node_n (h' ! length h0) = int (nat (simulation_times ag)) \<and> length h0 < length h' \<and>
     (\<forall>a<length h0. h' ! a = h0 ! a) \<and>
     mset (space ag') = mset (space ag) \<and> who ag' = who ag \<and>
     simulation_times ag' = simulation_times ag \<and>
     ((\<forall>m\<in>set (space ag). \<not> fst (board_place G state m)) \<longrightarrow>
        node_children (h' ! length h0) = [])"
proof -
  let ?rt = "length h0"
  from reverse_player_defined [OF who] obtain p where
    p: "reverse_player (who ag) = Some p" "p \<noteq> Empty" by blast
  define h where "h = (h0 @ [Node_new G])[?rt := ((h0 @ [Node_new G]) ! ?rt)\<lparr>node_placer := p\<rparr>]"
  have h_eq: "h = h0 @ [(Node_new G)\<lparr>node_placer := p\<rparr>]" by (simp add: h_def)
  have len: "length h = Suc ?rt" by (simp add: h_eq)
  have root: "h ! ?rt = (Node_new G)\<lparr>node_placer := p\<rparr>" by (simp add: h_eq)
  have cells: "h ! a = (Node_new G)\<lparr>node_placer := p\<rparr>" if "?rt \<le> a" "a < length h" for a
  proof -
    from that len have "a = ?rt" by simp
    with root show ?thesis by simp
  qed
  have "ptr_ok ?rt h"
    unfolding ptr_ok_def using len by (auto simp: cells Node_new_def)
  moreover have "stats_ok ?rt h"
    unfolding stats_ok_def by (auto simp: cells Node_new_def)
  moreover have "placers_ok ?rt h"
    unfolding placers_ok_def using p(2) by (auto simp: cells)
  moreover have "unexpanded ?rt h"
    unfolding unexpanded_def by (auto simp: cells Node_new_def)
  ultimately have inv: "search_inv ?rt h" by (simp add: search_inv_def)
  have run: "search G ag h0 state = search_loop G state ?rt (nat (simulation_times ag)) (ag, h)"
    using p(1) by (simp add: search_def h_def Let_def)
  from search_loop_inv [OF wf inv, of state "nat (simulation_times ag)" ag] obtain ag' h' where
    r: "search_loop G state ?rt (nat (simulation_times ag)) (ag, h) = Some (ag', h')"
      "search_inv ?rt h'"
      "node_n (h' ! ?rt) = node_n (h ! ?rt) + int (nat (simulation_times ag))"
      "length h \<le> length h'" "\<forall>a<?rt. h' ! a = h ! a"
      "mset (space ag') = mset (space ag)" "who ag' = who ag"
      "simulation_times ag' = simulation_times ag"
      "node_children (h ! ?rt) = [] \<and> (\<forall>m\<in>set (space ag). \<not> fst (board_place G state m)) \<longrightarrow>
          node_children (h' ! ?rt) = []"
    by blast
  have "node_n (h ! ?rt) = 0" "node_children (h ! ?rt) = []"
    by (simp_all add: root Node_new_def)
  moreover have "\<forall>a<?rt. h ! a = h0 ! a" by (simp add: h_eq nth_append)
  ultimately show ?thesis using run r len by auto
qed

text \<open>
  C6. With a non-negative simulation budget, on a game whose rollouts end, the search
  loop completes and leaves the root's visit count equal to \<^verbatim>\<open>simulation_times\<close>: every
  pass of the loop, from any heap the loop can reach, ends in a backpropagation that goes
  through the root and adds exactly 1 to its count.
\<close>

theorem root_visits_equal_budget:
  fixes G :: "('b, 'm, 'e) game"
  assumes "game_wf G mu" and "who ag \<noteq> Empty" and "0 \<le> simulation_times ag"
  shows "(\<exists>ag' h'. search G ag h0 state = Some (ag', h') \<and>
            node_n (h' ! length h0) = simulation_times ag) \<and>
         (\<forall>ag1 h. search_inv (length h0) h \<longrightarrow>
            (\<exists>ag' h'. iteration G state (length h0) (ag1, h) = Some (ag', h') \<and>
               search_inv (length h0) h' \<and>
               node_n (h' ! length h0) = node_n (h ! length h0) + 1))"
proof (intro conjI allI impI)
  from search_total [OF assms(1,2), of h0 state] assms(3)
  show "\<exists>ag' h'. search G ag h0 state = Some (ag', h') \<and>
            node_n (h' ! length h0) = simulation_times ag" by auto
next
  fix ag1 :: "('m, 'e) agent" and h :: "'m heap"
  assume "search_inv (length h0) h"
  from iteration_inv [OF assms(1) this, of state ag1]
  show "\<exists>ag' h'. iteration G state (length h0) (ag1, h) = Some (ag', h') \<and>
               search_inv (length h0) h' \<and>
               node_n (h' ! length h0) = node_n (h ! length h0) + 1" by blast
qed

theorem root_visits_equal_budget_witness:
  "\<exists>ag' h'. search toy_game (toy_agent 5) [] [] = Some (ag', h') \<and> node_n (h' ! 0) = 5"
  using root_visits_equal_budget [OF toy_game_wf, of "toy_agent 5" "[]" "[]"]
  by (simp add: toy_agent_def)

text \<open>
  C7. Whatever the budget, so after any number of passes of the search loop, every node
  the decision has allocated satisfies \<open>0 \<le> w \<le> n\<close>: a node starts at \<open>n = w = 0\<close>, a
  rollout returns 0 or 1, and each step of backpropagation adds 1 to \<open>n\<close> and that outcome
  to \<open>w\<close> of one node before it moves to the parent.
\<close>

theorem reward_sum_within_visits:
  fixes G :: "('b, 'm, 'e) game" and h0 :: "'m heap"
  assumes "game_wf G mu" and "who ag \<noteq> Empty"
  shows "(\<exists>ag' h'. search G ag h0 state = Some (ag', h') \<and>
            (\<forall>a. length h0 \<le> a \<and> a < length h' \<longrightarrow>
               0 \<le> node_w (h' ! a) \<and> node_w (h' ! a) \<le> node_n (h' ! a))) \<and>
         (\<exists>result ag'. simulate G ag b node = Some (result, ag') \<and> (result = 0 \<or> result = 1)) \<and>
         node_n (Node_new G) = 0 \<and> node_w (Node_new G) = 0 \<and>
         (\<forall>(h :: 'm heap) a res. a < length h \<longrightarrow>
            backprop_loop h (Some a) res =
            backprop_loop
              (h[a := (h ! a)\<lparr>node_n := node_n (h ! a) + 1, node_w := node_w (h ! a) + res\<rparr>])
              (node_parent (h ! a)) res)"
proof (intro conjI allI impI)
  from search_total [OF assms, of h0 state]
  show "\<exists>ag' h'. search G ag h0 state = Some (ag', h') \<and>
            (\<forall>a. length h0 \<le> a \<and> a < length h' \<longrightarrow>
               0 \<le> node_w (h' ! a) \<and> node_w (h' ! a) \<le> node_n (h' ! a))"
    unfolding search_inv_def stats_ok_def by blast
  from simulate_total [OF assms(1), of ag b node]
  show "\<exists>result ag'. simulate G ag b node = Some (result, ag') \<and> (result = 0 \<or> result = 1)"
    by blast
  show "node_n (Node_new G) = 0" "node_w (Node_new G) = 0" by (simp_all add: Node_new_def)
next
  fix h :: "'m heap" and a res
  assume "a < length h"
  then show "backprop_loop h (Some a) res =
            backprop_loop
              (h[a := (h ! a)\<lparr>node_n := node_n (h ! a) + 1, node_w := node_w (h ! a) + res\<rparr>])
              (node_parent (h ! a)) res"
    by (subst backprop_loop.simps) (simp add: deref_def)
qed

theorem reward_sum_within_visits_witness:
  "\<exists>ag' h'. search toy_game (toy_agent 5) [] [] = Some (ag', h') \<and>
     0 \<le> node_w (h' ! 0) \<and> node_w (h' ! 0) \<le> node_n (h' ! 0)"
proof -
  have w: "who (toy_agent 5) \<noteq> Empty" by (simp add: toy_agent_def)
  from reward_sum_within_visits [OF toy_game_wf w, of "[]" "[]", THEN conjunct1]
  obtain ag' h' where r: "search toy_game (toy_agent 5) [] [] = Some (ag', h')"
    "\<forall>a. length ([] :: nat heap) \<le> a \<and> a < length h' \<longrightarrow>
       0 \<le> node_w (h' ! a) \<and> node_w (h' ! a) \<le> node_n (h' ! a)"
    by blast
  from search_total [OF toy_game_wf w, of "[]" "[]"] r(1)
  have "0 < length h'" by auto
  with r show ?thesis by auto
qed

lemma select_child_childless:
  "deref h node = Some nd \<Longrightarrow> node_children nd = [] \<Longrightarrow>
   select_child G h state node rt c = Some (None, state)"
  by (simp add: select_child_def)

text \<open>
  C8. \<^verbatim>\<open>select_child\<close> on a node without children returns \<^verbatim>\<open>NULL\<close> and leaves the
  board alone. When no candidate of the agent is legal on the board \<^verbatim>\<open>take_action\<close> is
  given, it returns \<^verbatim>\<open>action()\<close> and the root has no child afterwards, whatever the
  budget (so after any number of passes: the root never acquires one).
\<close>

theorem no_children_no_move:
  fixes G :: "('b, 'm, 'e) game" and h0 :: "'m heap"
  assumes "game_wf G mu" and "who ag \<noteq> Empty"
  shows "(\<forall>(h :: 'm heap) node nd rt c st.
            deref h node = Some nd \<and> node_children nd = [] \<longrightarrow>
            select_child G h st node rt c = Some (None, st)) \<and>
         ((\<forall>m\<in>set (space ag). \<not> fst (board_place G state m)) \<longrightarrow>
            (\<exists>ag' h'. take_action G ag h0 state = Some (Action_default, ag', h') \<and>
               node_children (h' ! length h0) = []))"
proof (intro conjI allI impI)
  fix h :: "'m heap" and node nd rt c st
  assume "deref h node = Some nd \<and> node_children nd = []"
  then show "select_child G h st node rt c = Some (None, st)"
    by (simp add: select_child_childless)
next
  assume none: "\<forall>m\<in>set (space ag). \<not> fst (board_place G state m)"
  from search_total [OF assms, of h0 state] none obtain ag' h' where
    s: "search G ag h0 state = Some (ag', h')" and len: "length h0 < length h'" and
    kids: "node_children (h' ! length h0) = []"
    by blast
  from len have "deref h' (length h0) = Some (h' ! length h0)" by (simp add: deref_def)
  from select_child_childless [OF this kids, of G state "length h0" "rnd (1 / 10 ^ 12)"]
  have "take_action G ag h0 state = Some (Action_default, ag', h')"
    using s by (simp add: take_action_def)
  with kids show "\<exists>ag' h'. take_action G ag h0 state = Some (Action_default, ag', h') \<and>
               node_children (h' ! length h0) = []" by blast
qed

theorem no_children_no_move_witness:
  "\<exists>ag' h'. take_action toy_game (toy_agent 3) [] [0, 1, 2] = Some (Action_default, ag', h') \<and>
     node_children (h' ! 0) = []"
proof -
  have w: "who (toy_agent 3) \<noteq> Empty" by (simp add: toy_agent_def)
  have "\<forall>m\<in>set (space (toy_agent 3)). \<not> fst (board_place toy_game [0, 1, 2] m)"
    by (simp add: toy_agent_def toy_game_def)
  with no_children_no_move [OF toy_game_wf w, of "[0, 1, 2]" "[]", THEN conjunct2]
  show ?thesis by simp
qed

subsection \<open>The two exploration constants\<close>

lemma ln_11_bounds: "2 \<le> ln (11 :: real)" "ln (11 :: real) \<le> 3"
proof -
  have "exp (2 :: real) = exp 1 * exp 1" by (simp add: exp_add [symmetric])
  also have "\<dots> \<le> 3 * 3" by (intro mult_mono exp_le) simp_all
  also have "\<dots> \<le> (11 :: real)" by simp
  finally have "exp (2 :: real) \<le> 11" .
  then show "2 \<le> ln (11 :: real)" by (simp add: ln_ge_iff)
  have "ln (11 :: real) \<le> ln (4 ^ 2)" by (subst ln_le_cancel_iff) simp_all
  also have "\<dots> = 2 * ln (4 :: real)" using ln_realpow [of "4 :: real" 2] by simp
  also have "\<dots> \<le> 3" using ln_4_bounds(2) by simp
  finally show "ln (11 :: real) \<le> 3" .
qed

text \<open>An enclosure of the score of a visited child, from one of the square root that
  enters it and one of the constant.\<close>

lemma uct_within:
  assumes s: "dbl_within slo shi (dbl_sqrt (dbl_div_int (dbl_log G N) (node_n cn)))"
    and c: "clo \<le> c" "c \<le> chi" and pos: "0 \<le> clo" "0 \<le> slo"
    and t: "tlo \<le> clo * slo" "chi * shi \<le> thi" "- 4 \<le> tlo" "thi \<le> 4"
      "tlo * 2 ^ 50 \<in> \<int>" "thi * 2 ^ 50 \<in> \<int>"
    and x: "xlo \<le> real_of_int (int_div (node_w cn) (node_n cn)) + tlo"
      "real_of_int (int_div (node_w cn) (node_n cn)) + thi \<le> xhi" "- 4 \<le> xlo" "xhi \<le> 4"
      "xlo * 2 ^ 50 \<in> \<int>" "xhi * 2 ^ 50 \<in> \<int>"
  shows "dbl_within xlo xhi (uct G cn N (Fin c))"
proof -
  let ?d = "real_of_int (int_div (node_w cn) (node_n cn))"
  from s obtain z where z: "dbl_sqrt (dbl_div_int (dbl_log G N) (node_n cn)) = Fin z"
    "slo \<le> z" "z \<le> shi" by (rule dbl_withinE)
  have "clo * slo \<le> c * z" using c(1) z(2) pos by (intro mult_mono) simp_all
  with t(1) have l: "tlo \<le> c * z" by simp
  have "c * z \<le> chi * shi" using c z(2,3) pos by (intro mult_mono) simp_all
  with t(2) have h: "c * z \<le> thi" by simp
  from rnd_small [OF l h t(3-6)] obtain y where
    y: "rnd (c * z) = Fin y" "tlo \<le> y" "y \<le> thi" by (rule dbl_withinE)
  have "xlo \<le> ?d + y" "?d + y \<le> xhi" using x(1,2) y(2,3) by simp_all
  from rnd_small [OF this x(3-6)] show ?thesis using z(1) y(1) by (simp add: uct_def)
qed

text \<open>The default argument of \<^verbatim>\<open>c\<close>.\<close>

lemma sqrt2_constant: "dbl_within (45 / 32) (23 / 16) (dbl_sqrt (Fin 2))"
proof -
  have "sqrt ((45 / 32)\<^sup>2) \<le> sqrt 2" by (intro real_sqrt_le_mono) (simp add: power2_eq_square)
  then have l: "45 / 32 \<le> sqrt 2" by simp
  have "sqrt 2 \<le> sqrt ((23 / 16)\<^sup>2)" by (intro real_sqrt_le_mono) (simp add: power2_eq_square)
  then have h: "sqrt 2 \<le> 23 / 16" by simp
  from rnd_small [OF l h] show ?thesis by simp
qed

lemma ucb_root_terms:
  "dbl_within (1 / 4) (19 / 32) (dbl_sqrt (dbl_div_int (dbl_log G 11) 9))"
  "dbl_within (11 / 8) (7 / 4) (dbl_sqrt (dbl_div_int (dbl_log G 11) 1))"
proof -
  have "dbl_within 2 3 (dbl_log G 11)"
    using ln_11_bounds by (intro dbl_log_small) simp_all
  then obtain a where a: "dbl_log G 11 = Fin a" "2 \<le> a" "a \<le> 3" by (rule dbl_withinE)
  have "dbl_within (1 / 8) (11 / 32) (rnd (a / 9))"
    using a(2,3) by (intro rnd_small) simp_all
  then obtain b where b: "rnd (a / 9) = Fin b" "1 / 8 \<le> b" "b \<le> 11 / 32" by (rule dbl_withinE)
  have "sqrt ((1 / 4)\<^sup>2) \<le> sqrt b" using b(2) by (intro real_sqrt_le_mono) (simp add: power2_eq_square)
  then have l: "1 / 4 \<le> sqrt b" by simp
  have "sqrt b \<le> sqrt ((19 / 32)\<^sup>2)" using b(3) by (intro real_sqrt_le_mono) (simp add: power2_eq_square)
  then have h: "sqrt b \<le> 19 / 32" by simp
  from rnd_small [OF l h] a(1) b(1,2)
  show "dbl_within (1 / 4) (19 / 32) (dbl_sqrt (dbl_div_int (dbl_log G 11) 9))" by simp
  have "dbl_within 2 3 (rnd (a / 1))"
    using a(2,3) by (intro rnd_small) simp_all
  then obtain b' where b': "rnd (a / 1) = Fin b'" "2 \<le> b'" "b' \<le> 3" by (rule dbl_withinE)
  have "sqrt ((11 / 8)\<^sup>2) \<le> sqrt b'" using b'(2) by (intro real_sqrt_le_mono) (simp add: power2_eq_square)
  then have l': "11 / 8 \<le> sqrt b'" by simp
  have "sqrt b' \<le> sqrt ((7 / 4)\<^sup>2)" using b'(3) by (intro real_sqrt_le_mono) (simp add: power2_eq_square)
  then have h': "sqrt b' \<le> 7 / 4" by simp
  from rnd_small [OF l' h'] a(1) b'(1,2)
  show "dbl_within (11 / 8) (7 / 4) (dbl_sqrt (dbl_div_int (dbl_log G 11) 1))" by simp
qed

lemma ucb_children:
  "child_score G ucb_heap 0 c (Suc 0) = Some (uct G (ucb_heap ! 1) 11 c)"
  "child_score G ucb_heap 0 c 2 = Some (uct G (ucb_heap ! 2) 11 c)"
  "node_n (ucb_heap ! Suc 0) = 9" "node_w (ucb_heap ! Suc 0) = 9"
  "node_n (ucb_heap ! 2) = 1" "node_w (ucb_heap ! 2) = 0"
  by (simp_all add: child_score_def deref_def is_unvisited_def ucb_heap_def)

text \<open>Under 0.5 the first child of \<open>ucb_heap\<close> scores at least 9/8 and the second at most
  7/8; under \<open>sqrt 2\<close> the first scores at most 949/512 and the second at least 495/256.\<close>

lemma ucb_scores_half:
  "dbl_within (9 / 8) (83 / 64) (uct G (ucb_heap ! 1) 11 (Fin (1 / 2)))"
  "dbl_within (11 / 16) (7 / 8) (uct G (ucb_heap ! 2) 11 (Fin (1 / 2)))"
proof -
  show "dbl_within (9 / 8) (83 / 64) (uct G (ucb_heap ! 1) 11 (Fin (1 / 2)))"
    by (rule uct_within [where clo = "1 / 2" and chi = "1 / 2" and slo = "1 / 4" and shi = "19 / 32"
          and tlo = "1 / 8" and thi = "19 / 64"])
      (simp_all add: ucb_children ucb_root_terms int_div_def)
  show "dbl_within (11 / 16) (7 / 8) (uct G (ucb_heap ! 2) 11 (Fin (1 / 2)))"
    by (rule uct_within [where clo = "1 / 2" and chi = "1 / 2" and slo = "11 / 8" and shi = "7 / 4"
          and tlo = "11 / 16" and thi = "7 / 8"])
      (simp_all add: ucb_children ucb_root_terms int_div_def)
qed

lemma ucb_scores_sqrt2:
  assumes "dbl_sqrt (Fin 2) = Fin c"
  shows "dbl_within 1 (949 / 512) (uct G (ucb_heap ! 1) 11 (Fin c))"
    and "dbl_within (495 / 256) (161 / 64) (uct G (ucb_heap ! 2) 11 (Fin c))"
proof -
  from sqrt2_constant assms have c: "45 / 32 \<le> c" "c \<le> 23 / 16" by simp_all
  show "dbl_within 1 (949 / 512) (uct G (ucb_heap ! 1) 11 (Fin c))"
    by (rule uct_within [where clo = "45 / 32" and chi = "23 / 16" and slo = "1 / 4" and shi = "19 / 32"
          and tlo = 0 and thi = "437 / 512"])
      (use c in \<open>simp_all add: ucb_children ucb_root_terms int_div_def\<close>)
  show "dbl_within (495 / 256) (161 / 64) (uct G (ucb_heap ! 2) 11 (Fin c))"
    by (rule uct_within [where clo = "45 / 32" and chi = "23 / 16" and slo = "11 / 8" and shi = "7 / 4"
          and tlo = "495 / 256" and thi = "161 / 64"])
      (use c in \<open>simp_all add: ucb_children ucb_root_terms int_div_def\<close>)
qed

lemma ucb_half: "select_child toy_game ucb_heap [] 0 0 (Fin (1 / 2)) = Some (Some 1, [0])"
proof -
  from ucb_scores_half(1) [of toy_game] obtain x where
    x: "uct toy_game (ucb_heap ! 1) 11 (Fin (1 / 2)) = Fin x" "9 / 8 \<le> x" by (rule dbl_withinE)
  from ucb_scores_half(2) [of toy_game] obtain y where
    y: "uct toy_game (ucb_heap ! 2) 11 (Fin (1 / 2)) = Fin y" "y \<le> 7 / 8" by (rule dbl_withinE)
  have a: "dbl_gt (Fin x) (Fin (- 1))" using x(2) by simp
  have b: "\<not> dbl_gt (Fin y) (Fin x)" using x(2) y(2) by simp
  have "best_loop toy_game ucb_heap 0 (Fin (1 / 2)) [1, 2] (Fin (- 1), None) = Some (Fin x, Some 1)"
    using a b x(1) y(1) by (simp add: ucb_children)
  moreover have "deref ucb_heap 0 = Some (ucb_heap ! 0)" "node_children (ucb_heap ! 0) = [1, 2]"
    "deref ucb_heap 1 = Some (ucb_heap ! 1)" "node_move (ucb_heap ! 1) = 0"
    by (simp_all add: deref_def ucb_heap_def)
  ultimately show ?thesis by (simp add: select_child_def toy_game_def)
qed

lemma ucb_sqrt2:
  "select_child toy_game ucb_heap [] 0 0 (dbl_sqrt (Fin 2)) = Some (Some 2, [1])"
proof -
  from sqrt2_constant obtain c where c: "dbl_sqrt (Fin 2) = Fin c" by (rule dbl_withinE)
  from ucb_scores_sqrt2(1) [OF c, of toy_game] obtain x where
    x: "uct toy_game (ucb_heap ! 1) 11 (Fin c) = Fin x" "1 \<le> x" "x \<le> 949 / 512"
    by (rule dbl_withinE)
  from ucb_scores_sqrt2(2) [OF c, of toy_game] obtain y where
    y: "uct toy_game (ucb_heap ! 2) 11 (Fin c) = Fin y" "495 / 256 \<le> y" by (rule dbl_withinE)
  have a: "dbl_gt (Fin x) (Fin (- 1))" using x(2) by simp
  have b: "dbl_gt (Fin y) (Fin x)" using x(3) y(2) by simp
  have "best_loop toy_game ucb_heap 0 (Fin c) [1, 2] (Fin (- 1), None) = Some (Fin y, Some 2)"
    using a b x(1) y(1) by (simp add: ucb_children)
  moreover have "deref ucb_heap 0 = Some (ucb_heap ! 0)" "node_children (ucb_heap ! 0) = [1, 2]"
    "deref ucb_heap 2 = Some (ucb_heap ! 2)" "node_move (ucb_heap ! 2) = 1"
    by (simp_all add: deref_def ucb_heap_def)
  ultimately have "select_child toy_game ucb_heap [] 0 0 (Fin c) = Some (Some 2, [1])"
    by (simp add: select_child_def toy_game_def)
  then show ?thesis by (simp only: c)
qed

lemma select_loop_descent:
  assumes "select_loop G h rt state node = Some leaf"
  shows "descent G h rt (Fin (1 / 2)) (node, state) leaf"
proof (rule select_loop.raw_induct [where P = "\<lambda>G h rt state node leaf.
    descent G h rt (Fin (1 / 2)) (node, state) leaf", OF _ assms])
  fix f G h rt state node leaf
  assume IH: "\<And>G h rt state node leaf. f G h rt state node = Some leaf \<Longrightarrow>
      descent G h rt (Fin (1 / 2)) (node, state) leaf"
    and body: "(case deref h node of
        None \<Rightarrow> None
      | Some nd \<Rightarrow>
          if length (node_children nd) \<noteq> 0
          then (case select_child G h state node rt (Fin (1 / 2)) of
                  None \<Rightarrow> None
                | Some (None, state') \<Rightarrow> None
                | Some (Some node', state') \<Rightarrow> f G h rt state' node')
          else Some (node, state)) = Some leaf"
  from body obtain nd where nd: "deref h node = Some nd" by (auto split: option.splits)
  show "descent G h rt (Fin (1 / 2)) (node, state) leaf"
  proof (cases "node_children nd = []")
    case True
    with body nd have "leaf = (node, state)" by simp
    with nd True show ?thesis by (auto intro: descent.stop)
  next
    case False
    with body nd obtain node' state' where
      sc: "select_child G h state node rt (Fin (1 / 2)) = Some (Some node', state')" and
      rec: "f G h rt state' node' = Some leaf"
      by (auto split: option.splits prod.splits)
    from IH [OF rec] have "descent G h rt (Fin (1 / 2)) (node', state') leaf" .
    with nd False sc show ?thesis by (rule descent.step)
  qed
qed

lemma descent_select_loop:
  "descent G h rt c from leaf \<Longrightarrow> c = Fin (1 / 2) \<Longrightarrow>
   select_loop G h rt (snd from) (fst from) = Some leaf"
proof (induction rule: descent.induct)
  case (stop node nd state)
  then show ?case by (subst select_loop.simps) simp
next
  case (step node nd state node' state' leaf)
  then show ?case by (subst select_loop.simps) simp
qed

lemma select_descent:
  "select G h state rt = Some leaf \<longleftrightarrow> descent G h rt (Fin (1 / 2)) (rt, state) leaf"
  using select_loop_descent [of G h rt state rt leaf]
    descent_select_loop [of G h rt "Fin (1 / 2)" "(rt, state)" leaf]
  by (auto simp: select_def)

lemma take_action_final:
  "take_action G ag h0 state = Some (act, ag', h') \<longleftrightarrow>
     search G ag h0 state = Some (ag', h') \<and>
     (\<exists>best board.
        select_child G h' state (length h0) (length h0) (rnd (1 / 10 ^ 12)) = Some (best, board) \<and>
        (case best of
           None \<Rightarrow> act = Action_default
         | Some b \<Rightarrow> \<exists>bn. deref h' b = Some bn \<and> act = Action_place (node_move bn)))"
  by (auto simp: take_action_def split: option.splits prod.splits)

lemma ucb_select: "select toy_game ucb_heap [] 0 = Some (1, [0])"
proof -
  have d0: "deref ucb_heap 0 = Some (ucb_heap ! 0)" "node_children (ucb_heap ! 0) = [1, 2]"
    and d1: "deref ucb_heap 1 = Some (ucb_heap ! 1)" "node_children (ucb_heap ! 1) = []"
    by (simp_all add: deref_def ucb_heap_def)
  have "select_loop toy_game ucb_heap 0 [0] 1 = Some (1, [0])"
    using d1 by (subst select_loop.simps) simp
  then have "select_loop toy_game ucb_heap 0 [] 0 = Some (1, [0])"
    using d0 ucb_half by (subst select_loop.simps) simp
  then show ?thesis by (simp add: select_def)
qed

text \<open>
  C1, as the code has it. In the search loop \<^verbatim>\<open>select\<close> descends with the exploration
  constant 0.5, which it passes in place of the default \<^verbatim>\<open>sqrt(2.0)\<close> of
  \<^verbatim>\<open>select_child\<close>: it returns a leaf exactly when the descent under the double 1/2
  reaches it. The final decision is one call of the same \<^verbatim>\<open>select_child\<close> on the root
  with the double nearest to \<open>1 / 10 ^ 12\<close>, a positive number below \<open>1 / 2 ^ 39\<close>; the
  two call sites differ in the constant only.
\<close>

theorem exploration_constants:
  "(select G h state rt = Some leaf \<longleftrightarrow> descent G h rt (Fin (1 / 2)) (rt, state) leaf) \<and>
   (take_action G ag h0 state0 = Some (act, ag', h') \<longleftrightarrow>
      search G ag h0 state0 = Some (ag', h') \<and>
      (\<exists>best board.
         select_child G h' state0 (length h0) (length h0) (rnd (1 / 10 ^ 12)) = Some (best, board) \<and>
         (case best of
            None \<Rightarrow> act = Action_default
          | Some b \<Rightarrow> \<exists>bn. deref h' b = Some bn \<and> act = Action_place (node_move bn)))) \<and>
   (\<exists>x. rnd (1 / 10 ^ 12) = Fin x \<and> 1 / 2 ^ 40 \<le> x \<and> x \<le> 1 / 2 ^ 39)"
proof -
  from final_constant obtain x where "rnd (1 / 10 ^ 12) = Fin x" "1 / 2 ^ 40 \<le> x" "x \<le> 1 / 2 ^ 39"
    by (rule dbl_withinE)
  then have "\<exists>x. rnd (1 / 10 ^ 12) = Fin x \<and> 1 / 2 ^ 40 \<le> x \<and> x \<le> 1 / 2 ^ 39" by blast
  with select_descent [of G h state rt leaf] take_action_final [of G ag h0 state0 act ag' h']
  show ?thesis by blast
qed

theorem exploration_constants_witness:
  "descent toy_game ucb_heap 0 (Fin (1 / 2)) (0, []) (1, [0])"
  using exploration_constants [of toy_game ucb_heap "[]" 0 "(1, [0])"] ucb_select
  by simp

theorem select_does_not_use_sqrt2:
  "select toy_game ucb_heap [] 0 = Some (1, [0]) \<and>
   select_child toy_game ucb_heap [] 0 0 (dbl_sqrt (Fin 2)) = Some (Some 2, [1]) \<and>
   descent toy_game ucb_heap 0 (dbl_sqrt (Fin 2)) (0, []) (2, [1]) \<and>
   \<not> descent toy_game ucb_heap 0 (dbl_sqrt (Fin 2)) (0, []) (1, [0])"
proof -
  have d0: "deref ucb_heap 0 = Some (ucb_heap ! 0)" "node_children (ucb_heap ! 0) \<noteq> []"
    and d2: "deref ucb_heap 2 = Some (ucb_heap ! 2)" "node_children (ucb_heap ! 2) = []"
    by (simp_all add: deref_def ucb_heap_def)
  have leaf: "descent toy_game ucb_heap 0 (dbl_sqrt (Fin 2)) (2, [1]) (2, [1])"
    using d2 by (rule descent.stop)
  have down: "descent toy_game ucb_heap 0 (dbl_sqrt (Fin 2)) (0, []) (2, [1])"
    using d0 ucb_sqrt2 leaf by (rule descent.step)
  have only_leaf: "leaf = (2, [1])"
    if "descent toy_game ucb_heap 0 (dbl_sqrt (Fin 2)) (2, [1]) leaf" for leaf
    using that
  proof (cases rule: descent.cases)
    case (stop nd)
    then show ?thesis by simp
  next
    case (step nd node' state')
    from step(1,2) d2 show ?thesis by simp
  qed
  have "\<not> descent toy_game ucb_heap 0 (dbl_sqrt (Fin 2)) (0, []) (1, [0])"
  proof
    assume "descent toy_game ucb_heap 0 (dbl_sqrt (Fin 2)) (0, []) (1, [0])"
    then show False
    proof (cases rule: descent.cases)
      case (step nd node' state')
      from step(3) ucb_sqrt2 have "node' = 2" "state' = [1]" by simp_all
      with step(4) have "descent toy_game ucb_heap 0 (dbl_sqrt (Fin 2)) (2, [1]) (1, [0])" by simp
      from only_leaf [OF this] show False by simp
    qed
  qed
  with ucb_select ucb_sqrt2 down show ?thesis by simp
qed

subsection \<open>The search does not depend on where the heap puts the tree\<close>

lemma rebase_fields [simp]:
  "node_n (rebase r nd) = node_n nd" "node_w (rebase r nd) = node_w nd"
  "node_move (rebase r nd) = node_move nd" "node_placer (rebase r nd) = node_placer nd"
  "node_children (rebase r nd) = map (\<lambda>c. c - r) (node_children nd)"
  "node_parent (rebase r nd) = map_option (\<lambda>p. p - r) (node_parent nd)"
  by (simp_all add: rebase_def)

lemma length_tree_view [simp]: "length (tree_view r h) = length h - r"
  by (simp add: tree_view_def)

lemma deref_tree_view:
  "r \<le> a \<Longrightarrow> deref (tree_view r h) (a - r) = map_option (rebase r) (deref h a)"
  by (auto simp: deref_def tree_view_def)

lemma tree_view_update:
  "r \<le> a \<Longrightarrow> tree_view r (h[a := x]) = (tree_view r h)[a - r := rebase r x]"
  by (simp add: tree_view_def drop_update_swap map_update)

lemma child_score_tree_view:
  assumes "r \<le> rt" and "r \<le> ch"
  shows "child_score G (tree_view r h) (rt - r) c (ch - r) = child_score G h rt c ch"
  using assms
  by (simp add: child_score_def deref_tree_view is_unvisited_def uct_def split: option.splits)

lemma best_loop_tree_view:
  assumes "r \<le> rt" and "\<forall>ch\<in>set cs. r \<le> ch"
  shows "best_loop G (tree_view r h) (rt - r) c (map (\<lambda>c. c - r) cs) (m, map_option (\<lambda>b. b - r) b) =
     map_option (\<lambda>(m', b'). (m', map_option (\<lambda>b. b - r) b')) (best_loop G h rt c cs (m, b))"
  using assms(2)
proof (induction cs arbitrary: m b)
  case Nil
  then show ?case by simp
next
  case (Cons ch cs)
  then have ch: "r \<le> ch" and rest: "\<forall>ch\<in>set cs. r \<le> ch" by simp_all
  show ?case
  proof (cases "child_score G h rt c ch")
    case None
    then show ?thesis using child_score_tree_view [OF assms(1) ch, of G h c] by simp
  next
    case (Some s)
    show ?thesis
    proof (cases "dbl_gt s m")
      case True
      with Some child_score_tree_view [OF assms(1) ch, of G h c]
        Cons.IH [OF rest, of s "Some ch"] show ?thesis by simp
    next
      case False
      with Some child_score_tree_view [OF assms(1) ch, of G h c]
        Cons.IH [OF rest, of m b] show ?thesis by simp
    qed
  qed
qed

lemma best_loop_mem:
  "best_loop G h rt c cs (m, b0) = Some (m', Some b) \<Longrightarrow> b \<in> set cs \<or> b0 = Some b"
proof (induction cs arbitrary: m b0)
  case Nil
  then show ?case by simp
next
  case (Cons ch cs)
  then show ?case by (fastforce split: option.splits if_splits)
qed

lemma select_child_mem:
  assumes "select_child G h state node rt c = Some (Some best, state')"
  shows "\<exists>nd. deref h node = Some nd \<and> best \<in> set (node_children nd)"
proof -
  from assms obtain nd where nd: "deref h node = Some nd"
    by (auto simp: select_child_def split: option.splits)
  with assms obtain m where "best_loop G h rt c (node_children nd) (Fin (- 1), None) = Some (m, Some best)"
    by (auto simp: select_child_def split: option.splits if_splits prod.splits)
  from best_loop_mem [OF this] nd show ?thesis by simp
qed

lemma select_child_tree_view:
  assumes "r \<le> rt" and "r \<le> node"
    and "\<forall>nd. deref h node = Some nd \<longrightarrow> (\<forall>ch\<in>set (node_children nd). r \<le> ch)"
  shows "select_child G (tree_view r h) state (node - r) (rt - r) c =
     map_option (\<lambda>(b, s). (map_option (\<lambda>b. b - r) b, s)) (select_child G h state node rt c)"
proof (cases "deref h node")
  case None
  then show ?thesis using assms(2) by (simp add: select_child_def deref_tree_view)
next
  case (Some nd)
  with assms(3) have kids: "\<forall>ch\<in>set (node_children nd). r \<le> ch" by simp
  have dv: "deref (tree_view r h) (node - r) = Some (rebase r nd)"
    using Some assms(2) by (simp add: deref_tree_view)
  show ?thesis
  proof (cases "node_children nd = []")
    case True
    then show ?thesis using Some dv by (simp add: select_child_def)
  next
    case False
    note bl = best_loop_tree_view [OF assms(1) kids, of G h c "Fin (- 1)" None, simplified]
    show ?thesis
    proof (cases "best_loop G h rt c (node_children nd) (Fin (- 1), None)")
      case None
      then show ?thesis using Some dv False bl by (simp add: select_child_def)
    next
      case (Some res)
      obtain m b where res: "res = (m, b)" by (cases res)
      show ?thesis
      proof (cases b)
        case None
        then show ?thesis
          using \<open>deref h node = Some nd\<close> dv False bl Some res by (simp add: select_child_def)
      next
        case (Some best)
        with \<open>best_loop G h rt c (node_children nd) (Fin (- 1), None) = Some res\<close> res
        have "best \<in> set (node_children nd)" using best_loop_mem by fastforce
        with kids have "r \<le> best" by simp
        then have "deref (tree_view r h) (best - r) = map_option (rebase r) (deref h best)"
          by (rule deref_tree_view)
        then show ?thesis
          using \<open>deref h node = Some nd\<close> dv False bl
            \<open>best_loop G h rt c (node_children nd) (Fin (- 1), None) = Some res\<close> res Some
          by (simp add: select_child_def split: option.splits)
      qed
    qed
  qed
qed

lemma ptr_ok_children:
  "ptr_ok r h \<Longrightarrow> r \<le> a \<Longrightarrow> a < length h \<Longrightarrow> c \<in> set (node_children (h ! a)) \<Longrightarrow>
   a < c \<and> c < length h"
  unfolding ptr_ok_def by blast

lemma select_loop_tree_view:
  assumes ptr: "ptr_ok r h"
  shows "r \<le> node \<Longrightarrow> node < length h \<Longrightarrow>
     select_loop G (tree_view r h) 0 state (node - r) =
     map_option (\<lambda>(l, s). (l - r, s)) (select_loop G h r state node)"
proof (induction "length h - node" arbitrary: node state rule: less_induct)
  case less
  have d: "deref h node = Some (h ! node)" using less.prems(2) by (simp add: deref_def)
  have dv: "deref (tree_view r h) (node - r) = Some (rebase r (h ! node))"
    using d less.prems(1) by (simp add: deref_tree_view)
  have kids: "\<forall>nd. deref h node = Some nd \<longrightarrow> (\<forall>ch\<in>set (node_children nd). r \<le> ch)"
    using d ptr_ok_children [OF ptr less.prems] less.prems(1) by fastforce
  note sc = select_child_tree_view [OF le_refl less.prems(1) kids, of G state "Fin (1 / 2)", simplified]
  show ?case
  proof (cases "node_children (h ! node) = []")
    case True
    have "select_loop G h r state node = Some (node, state)"
      using d True by (subst select_loop.simps) simp
    moreover have "select_loop G (tree_view r h) 0 state (node - r) = Some (node - r, state)"
      using dv True by (subst select_loop.simps) simp
    ultimately show ?thesis by simp
  next
    case False
    show ?thesis
    proof (cases "select_child G h state node r (Fin (1 / 2))")
      case None
      have "select_loop G h r state node = None"
        using d False None by (subst select_loop.simps) simp
      moreover have "select_loop G (tree_view r h) 0 state (node - r) = None"
        using dv False sc None by (subst select_loop.simps) simp
      ultimately show ?thesis by simp
    next
      case (Some res)
      obtain b state' where res: "res = (b, state')" by (cases res)
      show ?thesis
      proof (cases b)
        case None
        have "select_loop G h r state node = None"
          using d False Some res None by (subst select_loop.simps) simp
        moreover have "select_loop G (tree_view r h) 0 state (node - r) = None"
          using dv False sc Some res None by (subst select_loop.simps) simp
        ultimately show ?thesis by simp
      next
        case (Some best)
        with \<open>select_child G h state node r (Fin (1 / 2)) = Some res\<close> res
        have "select_child G h state node r (Fin (1 / 2)) = Some (Some best, state')" by simp
        from select_child_mem [OF this] d have "best \<in> set (node_children (h ! node))" by simp
        from ptr_ok_children [OF ptr less.prems this] less.prems(1)
        have b: "node < best" "best < length h" "r \<le> best" by simp_all
        then have "length h - best < length h - node" by simp
        from less.hyps [OF this b(3,2), of state']
        have IH: "select_loop G (tree_view r h) 0 state' (best - r) =
          map_option (\<lambda>(l, s). (l - r, s)) (select_loop G h r state' best)" .
        have "select_loop G h r state node = select_loop G h r state' best"
          using d False \<open>select_child G h state node r (Fin (1 / 2)) = Some res\<close> res Some
          by (subst select_loop.simps) simp
        moreover have "select_loop G (tree_view r h) 0 state (node - r) =
            select_loop G (tree_view r h) 0 state' (best - r)"
          using dv False sc \<open>select_child G h state node r (Fin (1 / 2)) = Some res\<close> res Some
          by (subst select_loop.simps) simp
        ultimately show ?thesis using IH by simp
      qed
    qed
  qed
qed

lemma new_addrs_shift:
  "map (\<lambda>k. k - r) (new_addrs legal (r + a) ms) = new_addrs legal a ms"
proof (induction ms arbitrary: a)
  case Nil
  then show ?case by simp
next
  case (Cons m ms)
  from Cons.IH [of "Suc a"] show ?case by simp
qed

lemma rebase_expanded_cell:
  "r \<le> node \<Longrightarrow> rebase r (expanded_cell G state node p m) = expanded_cell G state (node - r) p m"
  by (simp add: rebase_def expanded_cell_def Node_new_def)

lemma expand_tree_view:
  assumes "r \<le> leaf" and "leaf < length h"
    and "reverse_player (node_placer (h ! leaf)) = Some p"
    and "\<forall>ch\<in>set (node_children (h ! leaf)). r \<le> ch"
  shows "\<exists>t ag1 h1. expand G ag h cb leaf = Some (t, ag1, h1) \<and>
     expand G ag (tree_view r h) cb (leaf - r) = Some (t, ag1, tree_view r h1)"
proof -
  let ?legal = "\<lambda>m. fst (board_place G cb m)"
  let ?v = "tree_view r h"
  obtain sp e where sh: "std_shuffle G (space ag) (engine ag) = (sp, e)"
    by (cases "std_shuffle G (space ag) (engine ag)")
  have lv: "leaf - r < length ?v" using assms(1,2) by simp
  have at: "?v ! (leaf - r) = rebase r (h ! leaf)"
    using assms(1,2) by (simp add: tree_view_def)
  have pv: "reverse_player (node_placer (?v ! (leaf - r))) = Some p"
    using assms(3) at by simp
  have len: "length h = r + (length h - r)" using assms(1,2) by simp
  have kids: "map (\<lambda>k. k - r) (new_addrs ?legal (length h) sp) = new_addrs ?legal (length h - r) sp"
    using new_addrs_shift [of r ?legal "length h - r" sp] len by simp
  let ?h1 = "h[leaf := (h ! leaf)\<lparr>node_children := node_children (h ! leaf) @
                new_addrs ?legal (length h) sp\<rparr>] @ map (expanded_cell G cb leaf p) sp"
  have view: "tree_view r ?h1 =
      ?v[leaf - r := (?v ! (leaf - r))\<lparr>node_children := node_children (?v ! (leaf - r)) @
                new_addrs ?legal (length ?v) sp\<rparr>] @ map (expanded_cell G cb (leaf - r) p) sp"
  proof -
    have "drop r ?h1 = (drop r h)[leaf - r := (h ! leaf)\<lparr>node_children :=
        node_children (h ! leaf) @ new_addrs ?legal (length h) sp\<rparr>]
        @ map (expanded_cell G cb leaf p) sp"
      using assms(1,2) by (simp add: drop_update_swap)
    then have "tree_view r ?h1 = (?v[leaf - r := rebase r ((h ! leaf)\<lparr>node_children :=
        node_children (h ! leaf) @ new_addrs ?legal (length h) sp\<rparr>)])
        @ map (rebase r \<circ> expanded_cell G cb leaf p) sp"
      by (simp add: tree_view_def map_update)
    moreover have "rebase r \<circ> expanded_cell G cb leaf p = expanded_cell G cb (leaf - r) p"
      using rebase_expanded_cell [OF assms(1)] by (auto simp: fun_eq_iff)
    moreover have "rebase r ((h ! leaf)\<lparr>node_children :=
        node_children (h ! leaf) @ new_addrs ?legal (length h) sp\<rparr>) =
        (?v ! (leaf - r))\<lparr>node_children := node_children (?v ! (leaf - r)) @
                new_addrs ?legal (length ?v) sp\<rparr>"
      using kids by (simp add: at rebase_def)
    ultimately show ?thesis by simp
  qed
  have empty_iff: "(node_children (?v ! (leaf - r)) @ new_addrs ?legal (length ?v) sp = []) =
      (node_children (h ! leaf) @ new_addrs ?legal (length h) sp = [])"
    using kids [symmetric] by (simp add: at)
  from expand_closed [OF assms(2,3) sh, of cb] expand_closed [OF lv pv sh, of cb] view empty_iff
  show ?thesis by simp
qed

lemma rebase_counters:
  "rebase r (nd\<lparr>node_n := x, node_w := y\<rparr>) = (rebase r nd)\<lparr>node_n := x, node_w := y\<rparr>"
  by (cases nd) (simp add: rebase_def)

lemma backprop_loop_tree_view:
  assumes "ptr_ok r h" and "r \<le> a" and "a < length h"
  shows "backprop_loop (tree_view r h) (Some (a - r)) res =
     map_option (tree_view r) (backprop_loop h (Some a) res)"
  using assms
proof (induction a arbitrary: h rule: less_induct)
  case (less a)
  let ?nd = "h ! a"
  let ?up = "\<lambda>nd. nd\<lparr>node_n := node_n nd + 1, node_w := node_w nd + res\<rparr>"
  let ?h1 = "h[a := ?up ?nd]"
  have step: "backprop_loop h (Some a) res = backprop_loop ?h1 (node_parent ?nd) res"
    using less.prems(3) by (subst backprop_loop.simps) (simp add: deref_def)
  have "deref h a = Some ?nd" using less.prems(3) by (simp add: deref_def)
  then have dv: "deref (tree_view r h) (a - r) = Some (rebase r ?nd)"
    using less.prems(2) by (simp add: deref_tree_view)
  have v1: "tree_view r ?h1 = (tree_view r h)[a - r := ?up (rebase r ?nd)]"
    using less.prems(2) by (simp add: tree_view_update rebase_counters)
  have stepv: "backprop_loop (tree_view r h) (Some (a - r)) res =
      backprop_loop (tree_view r ?h1) (map_option (\<lambda>p. p - r) (node_parent ?nd)) res"
    using dv v1 by (subst backprop_loop.simps) simp
  show ?case
  proof (cases "node_parent ?nd")
    case None
    have "backprop_loop ?h1 None res = Some ?h1" by (subst backprop_loop.simps) simp
    moreover have "backprop_loop (tree_view r ?h1) None res = Some (tree_view r ?h1)"
      by (subst backprop_loop.simps) simp
    ultimately show ?thesis unfolding step stepv None by simp
  next
    case (Some q)
    from less.prems Some have q: "r \<le> q" "q < a" unfolding ptr_ok_def by blast+
    have same: "\<forall>b<length h. node_parent (?h1 ! b) = node_parent (h ! b) \<and>
           node_children (?h1 ! b) = node_children (h ! b)"
      using less.prems(3) by (simp add: nth_list_update)
    have ptr1: "ptr_ok r ?h1"
      by (rule ptr_ok_same_links [OF less.prems(1) _ same]) simp
    have "q < length ?h1" using q less.prems(3) by simp
    from less.IH [OF q(2) ptr1 q(1) this]
    show ?thesis unfolding step stepv Some by simp
  qed
qed

lemma iteration_tree_view:
  assumes wf: "game_wf G mu" and inv: "search_inv r h"
  shows "\<exists>ag' h'. iteration G state r (ag, h) = Some (ag', h') \<and>
     iteration G state 0 (ag, tree_view r h) = Some (ag', tree_view r h') \<and> search_inv r h'"
proof -
  let ?v = "tree_view r h"
  from inv have ptr: "ptr_ok r h" and stats: "stats_ok r h" and plc: "placers_ok r h"
    and alt: "unexpanded r h \<or> 1 \<le> node_n (h ! r)"
    by (simp_all add: search_inv_def)
  from ptr have rt: "r < length h" by (simp add: ptr_ok_def)
  have rl: "linked r h r" by (simp add: linked_def)
  from select_loop_total [OF ptr stats alt le_refl rt rl, of G state]
  obtain leaf cb where
    sel: "select G h state r = Some (leaf, cb)" and l1: "r \<le> leaf" and l2: "leaf < length h"
    and l3: "linked r h leaf"
    unfolding select_def by blast
  have selv: "select G ?v state 0 = Some (leaf - r, cb)"
    using select_loop_tree_view [OF ptr le_refl rt, of G state] sel by (simp add: select_def)
  have d: "deref h leaf = Some (h ! leaf)" using l2 by (simp add: deref_def)
  then have dv: "deref ?v (leaf - r) = Some (rebase r (h ! leaf))"
    using l1 by (simp add: deref_tree_view)
  have "\<exists>ag1 h1 cb1.
      (if node_n (h ! leaf) = 0
       then (case expand G ag h cb leaf of
               None \<Rightarrow> None
             | Some (t, ag1, h1) \<Rightarrow>
                 (case deref h1 leaf of
                    None \<Rightarrow> None
                  | Some cn1 \<Rightarrow> Some (ag1, h1, action_apply G (node_move cn1) cb)))
       else Some (ag, h, cb)) = Some (ag1, h1, cb1) \<and>
      (if node_n (h ! leaf) = 0
       then (case expand G ag ?v cb (leaf - r) of
               None \<Rightarrow> None
             | Some (t, ag1, h1) \<Rightarrow>
                 (case deref h1 (leaf - r) of
                    None \<Rightarrow> None
                  | Some cn1 \<Rightarrow> Some (ag1, h1, action_apply G (node_move cn1) cb)))
       else Some (ag, ?v, cb)) = Some (ag1, tree_view r h1, cb1) \<and>
      ptr_ok r h1 \<and> stats_ok r h1 \<and> placers_ok r h1 \<and> length h \<le> length h1 \<and>
      linked r h1 leaf"
  proof (cases "node_n (h ! leaf) = 0")
    case False
    with ptr stats plc l3 show ?thesis by simp
  next
    case True
    from plc l1 l2 have "node_placer (h ! leaf) \<noteq> Empty" by (simp add: placers_ok_def)
    from reverse_player_defined [OF this] obtain p where
      p: "reverse_player (node_placer (h ! leaf)) = Some p" by blast
    have kids: "\<forall>ch\<in>set (node_children (h ! leaf)). r \<le> ch"
      using ptr_ok_children [OF ptr l1 l2] l1 by fastforce
    from expand_tree_view [OF l1 l2 p kids, of G ag cb] obtain t ag1 h1 where
      e: "expand G ag h cb leaf = Some (t, ag1, h1)" and
      ev: "expand G ag ?v cb (leaf - r) = Some (t, ag1, tree_view r h1)" by blast
    from expand_step [OF wf ptr stats plc l1 l2 l3, of ag cb] e
    have rest: "ptr_ok r h1" "stats_ok r h1" "placers_ok r h1" "length h \<le> length h1"
        "linked r h1 leaf" by auto
    have d1: "deref h1 leaf = Some (h1 ! leaf)" using l2 rest(4) by (simp add: deref_def)
    then have "deref (tree_view r h1) (leaf - r) = Some (rebase r (h1 ! leaf))"
      using l1 by (simp add: deref_tree_view)
    with True e ev d1 rest show ?thesis by simp
  qed
  then obtain ag1 h1 cb1 where
    mid: "(if node_n (h ! leaf) = 0
       then (case expand G ag h cb leaf of
               None \<Rightarrow> None
             | Some (t, ag1, h1) \<Rightarrow>
                 (case deref h1 leaf of
                    None \<Rightarrow> None
                  | Some cn1 \<Rightarrow> Some (ag1, h1, action_apply G (node_move cn1) cb)))
       else Some (ag, h, cb)) = Some (ag1, h1, cb1)" and
    midv: "(if node_n (h ! leaf) = 0
       then (case expand G ag ?v cb (leaf - r) of
               None \<Rightarrow> None
             | Some (t, ag1, h1) \<Rightarrow>
                 (case deref h1 (leaf - r) of
                    None \<Rightarrow> None
                  | Some cn1 \<Rightarrow> Some (ag1, h1, action_apply G (node_move cn1) cb)))
       else Some (ag, ?v, cb)) = Some (ag1, tree_view r h1, cb1)" and
    inv1: "ptr_ok r h1" "stats_ok r h1" "placers_ok r h1" and len1: "length h \<le> length h1" and
    lnk1: "linked r h1 leaf"
    by blast
  from simulate_total [OF wf, of ag1 cb1 leaf] obtain res ag2 where
    sim: "simulate G ag1 cb1 leaf = Some (res, ag2)" and res: "res = 0 \<or> res = 1"
    by blast
  have simv: "simulate G ag1 cb1 (leaf - r) = Some (res, ag2)"
    using sim by (simp add: simulate_def)
  have l2': "leaf < length h1" using l2 len1 by simp
  from backprop_step [OF inv1 l1 l2' lnk1 res] obtain h2 where
    bp: "backpropagation h1 (Some leaf) res = Some (True, h2)" by blast
  then have "backprop_loop h1 (Some leaf) res = Some h2"
    by (auto simp: backpropagation_def split: option.splits)
  with backprop_loop_tree_view [OF inv1(1) l1 l2', of res]
  have bpv: "backpropagation (tree_view r h1) (Some (leaf - r)) res = Some (True, tree_view r h2)"
    by (simp add: backpropagation_def)
  have run: "iteration G state r (ag, h) = Some (ag2, h2)"
    using sel d mid sim bp by simp
  have runv: "iteration G state 0 (ag, ?v) = Some (ag2, tree_view r h2)"
    using selv dv midv simv bpv by simp
  from iteration_inv [OF wf inv, of state ag] run have "search_inv r h2" by auto
  with run runv show ?thesis by blast
qed

lemma search_loop_tree_view:
  assumes wf: "game_wf G mu"
  shows "search_inv r h \<Longrightarrow>
     \<exists>ag' h'. search_loop G state r k (ag, h) = Some (ag', h') \<and>
       search_loop G state 0 k (ag, tree_view r h) = Some (ag', tree_view r h') \<and>
       search_inv r h'"
proof (induction k arbitrary: ag h)
  case 0
  then show ?case by simp
next
  case (Suc k)
  from iteration_tree_view [OF wf Suc.prems, of state ag] obtain ag1 h1 where
    it: "iteration G state r (ag, h) = Some (ag1, h1)"
      "iteration G state 0 (ag, tree_view r h) = Some (ag1, tree_view r h1)"
      "search_inv r h1" by blast
  from Suc.IH [OF it(3), of ag1] it(1,2) show ?case by simp
qed

lemma root_heap_inv:
  assumes "p \<noteq> Empty"
  shows "search_inv (length h0) (h0 @ [(Node_new G)\<lparr>node_placer := p\<rparr>])"
proof -
  let ?rt = "length h0"
  define h where "h = h0 @ [(Node_new G)\<lparr>node_placer := p\<rparr>]"
  have len: "length h = Suc ?rt" by (simp add: h_def)
  have root: "h ! ?rt = (Node_new G)\<lparr>node_placer := p\<rparr>" by (simp add: h_def)
  have cells: "h ! a = (Node_new G)\<lparr>node_placer := p\<rparr>" if "?rt \<le> a" "a < length h" for a
  proof -
    from that len have "a = ?rt" by simp
    with root show ?thesis by simp
  qed
  have "ptr_ok ?rt h"
    unfolding ptr_ok_def using len by (auto simp: cells Node_new_def)
  moreover have "stats_ok ?rt h"
    unfolding stats_ok_def by (auto simp: cells Node_new_def)
  moreover have "placers_ok ?rt h"
    unfolding placers_ok_def using assms by (auto simp: cells)
  moreover have "unexpanded ?rt h"
    unfolding unexpanded_def by (auto simp: cells Node_new_def)
  ultimately show ?thesis unfolding h_def by (simp add: search_inv_def)
qed

lemma final_select_child:
  assumes inv: "search_inv r h" and c: "0 < c"
  shows "\<exists>best board. select_child G h state r r (Fin c) = Some (best, board) \<and>
     (\<forall>b. best = Some b \<longrightarrow> r \<le> b \<and> b < length h)"
proof -
  from inv have ptr: "ptr_ok r h" and stats: "stats_ok r h"
    and alt: "unexpanded r h \<or> 1 \<le> node_n (h ! r)"
    by (simp_all add: search_inv_def)
  from ptr have rt: "r < length h" by (simp add: ptr_ok_def)
  then have d: "deref h r = Some (h ! r)" by (simp add: deref_def)
  show ?thesis
  proof (cases "node_children (h ! r) = []")
    case True
    with d show ?thesis by (simp add: select_child_def)
  next
    case False
    with alt rt have n: "1 \<le> node_n (h ! r)" by (auto simp: unexpanded_def)
    have st: "\<forall>ch\<in>set (node_children (h ! r)).
        ch < length h \<and> 0 \<le> node_n (h ! ch) \<and> 0 \<le> node_w (h ! ch)"
    proof
      fix ch assume ch: "ch \<in> set (node_children (h ! r))"
      from ptr_ok_children [OF ptr le_refl rt ch] have "r \<le> ch" "ch < length h" by simp_all
      with stats show "ch < length h \<and> 0 \<le> node_n (h ! ch) \<and> 0 \<le> node_w (h ! ch)"
        by (auto simp: stats_ok_def)
    qed
    from select_child_returns [OF d False d n st c, of G state] obtain best state' where
      b: "select_child G h state r r (Fin c) = Some (Some best, state')"
        "best \<in> set (node_children (h ! r))" by blast
    from ptr_ok_children [OF ptr le_refl rt b(2)] b(1) show ?thesis by simp
  qed
qed

lemma take_action_tree_view:
  assumes wf: "game_wf G mu" and who: "who ag \<noteq> Empty"
  shows "\<exists>act ag' h'. take_action G ag h0 state = Some (act, ag', h') \<and>
     take_action G ag [] state = Some (act, ag', tree_view (length h0) h')"
proof -
  let ?r = "length h0"
  let ?T = "nat (simulation_times ag)"
  from reverse_player_defined [OF who] obtain p where
    p: "reverse_player (who ag) = Some p" "p \<noteq> Empty" by blast
  let ?root = "(Node_new G)\<lparr>node_placer := p\<rparr>"
  have s1: "search G ag h0 state = search_loop G state ?r ?T (ag, h0 @ [?root])"
    using p(1) by (simp add: search_def Let_def)
  have s2: "search G ag [] state = search_loop G state 0 ?T (ag, [?root])"
    using p(1) by (simp add: search_def Let_def)
  have v0: "tree_view ?r (h0 @ [?root]) = [?root]"
    by (simp add: tree_view_def rebase_def Node_new_def)
  note inv0 = root_heap_inv [OF p(2), of h0 G]
  from search_loop_tree_view [OF wf inv0, of state ?T ag] v0
  obtain ag' h' where
    r1: "search_loop G state ?r ?T (ag, h0 @ [?root]) = Some (ag', h')" and
    r2: "search_loop G state 0 ?T (ag, [?root]) = Some (ag', tree_view ?r h')" and
    inv: "search_inv ?r h'" by auto
  from final_constant obtain x where x: "rnd (1 / 10 ^ 12) = Fin x" "1 / 2 ^ 40 \<le> x"
    by (rule dbl_withinE)
  have "(0 :: real) < 1 / 2 ^ 40" by simp
  then have c: "0 < x" using x(2) by (rule less_le_trans)
  from final_select_child [OF inv c, of G state, folded x(1)] obtain best board where
    f: "select_child G h' state ?r ?r (rnd (1 / 10 ^ 12)) = Some (best, board)" and
    rng: "\<forall>b. best = Some b \<longrightarrow> ?r \<le> b \<and> b < length h'" by blast
  from inv have ptr: "ptr_ok ?r h'" by (simp add: search_inv_def)
  then have rt: "?r < length h'" by (simp add: ptr_ok_def)
  have kids: "\<forall>nd. deref h' ?r = Some nd \<longrightarrow> (\<forall>ch\<in>set (node_children nd). ?r \<le> ch)"
    using ptr_ok_children [OF ptr le_refl rt] rt by (fastforce simp: deref_def)
  from select_child_tree_view [OF le_refl le_refl kids, of G state "rnd (1 / 10 ^ 12)"] f
  have fv: "select_child G (tree_view ?r h') state 0 0 (rnd (1 / 10 ^ 12)) =
      Some (map_option (\<lambda>b. b - ?r) best, board)" by simp
  show ?thesis
  proof (cases best)
    case None
    with s1 s2 r1 r2 f fv show ?thesis by (simp add: take_action_def)
  next
    case (Some b)
    with rng have b: "?r \<le> b" "b < length h'" by simp_all
    then have d: "deref h' b = Some (h' ! b)" by (simp add: deref_def)
    then have "deref (tree_view ?r h') (b - ?r) = Some (rebase ?r (h' ! b))"
      using b(1) by (simp add: deref_tree_view)
    with s1 s2 r1 r2 f fv Some d show ?thesis by (simp add: take_action_def)
  qed
qed

subsection \<open>Construction\<close>

lemma MCTSplayer_new_who:
  assumes "MCTSplayer_new G name role seed T = Inr ag"
  shows "who ag \<noteq> Empty"
proof (cases "invalid_name name")
  case True
  with assms show ?thesis by (simp add: MCTSplayer_new_def)
next
  case False
  note ok = this
  show ?thesis
  proof (cases "role_side role = Empty")
    case True
    with assms ok show ?thesis by (simp add: MCTSplayer_new_def)
  next
    case False
    with assms ok have "who ag = role_side role" by (auto simp: MCTSplayer_new_def)
    with False show ?thesis by simp
  qed
qed

lemma toy_agent_constructed:
  "MCTSplayer_new toy_game ''random'' ''black'' (Some 0) (Some t) = Inr (toy_agent t)"
proof -
  have "\<not> invalid_name ''random''" by (simp add: invalid_name_def)
  moreover have "role_side ''black'' = Black" by (simp add: role_side_def)
  moreover have "[0..<board_cells toy_game] = [0, 1, 2]"
    by (simp add: toy_game_def upt_conv_Cons)
  ultimately show ?thesis
    by (simp add: MCTSplayer_new_def toy_agent_def) (simp add: toy_game_def)
qed

subsection \<open>Two runs\<close>

lemma take_action_who:
  assumes "game_wf G mu" and "who ag \<noteq> Empty"
    and "take_action G ag h0 state = Some (act, ag', h')"
  shows "who ag' = who ag"
proof -
  from search_total [OF assms(1,2), of h0 state] obtain ag1 h1 where
    "search G ag h0 state = Some (ag1, h1)" "who ag1 = who ag" by blast
  with assms(3) show ?thesis
    by (auto simp: take_action_def split: option.splits)
qed

lemma decisions_heap_independent:
  assumes wf: "game_wf G mu"
  shows "who ag \<noteq> Empty \<Longrightarrow>
     \<exists>acts ag' h1 h2. decisions G ag h0 boards = Some (acts, ag', h1) \<and>
        decisions G ag h0' boards = Some (acts, ag', h2)"
proof (induction boards arbitrary: ag h0 h0')
  case Nil
  then show ?case by simp
next
  case (Cons b bs)
  from take_action_tree_view [OF wf Cons.prems, of h0 b] obtain act ag1 h1 where
    a: "take_action G ag h0 b = Some (act, ag1, h1)"
       "take_action G ag [] b = Some (act, ag1, tree_view (length h0) h1)" by blast
  from take_action_tree_view [OF wf Cons.prems, of h0' b] obtain act2 ag2 h2 where
    b: "take_action G ag h0' b = Some (act2, ag2, h2)"
       "take_action G ag [] b = Some (act2, ag2, tree_view (length h0') h2)" by blast
  from a(2) b(2) have same: "act2 = act" "ag2 = ag1" by simp_all
  from take_action_who [OF wf Cons.prems a(1)] Cons.prems have "who ag1 \<noteq> Empty" by simp
  from Cons.IH [OF this, of h1 h2] obtain acts ag' k1 k2 where
    r: "decisions G ag1 h1 bs = Some (acts, ag', k1)"
       "decisions G ag1 h2 bs = Some (acts, ag', k2)" by blast
  from a(1) b(1) same r show ?case by simp
qed

text \<open>
  C9, as the code has it. The engine is seeded once, by the constructor, and it stays in
  the agent with the shuffled candidate vector, so a decision depends on the decisions
  the agent has taken before. What is determined by seed, board and budget is the run of
  a freshly constructed agent: two agents constructed from the same configuration
  (seed, side, budget) return the same action on the same board and are left in the same
  state, and on the same sequence of boards they return the same sequence of actions.
  All the randomness comes from the engine; the one other thing that can differ between
  two runs, the addresses the allocator hands out, does not reach the result. Both runs
  return (no uninitialised local and no dangling pointer is read) and build the same
  tree.
\<close>

theorem take_action_deterministic:
  assumes "game_wf G mu"
    and "MCTSplayer_new G name role seed T = Inr ag1"
    and "MCTSplayer_new G name role seed T = Inr ag2"
  shows "(\<exists>act ag' h1 h2.
            take_action G ag1 h0 state = Some (act, ag', h1) \<and>
            take_action G ag2 h0' state = Some (act, ag', h2) \<and>
            tree_view (length h0) h1 = tree_view (length h0') h2) \<and>
         (\<exists>acts ag' h1 h2.
            decisions G ag1 h0 boards = Some (acts, ag', h1) \<and>
            decisions G ag2 h0' boards = Some (acts, ag', h2))"
proof
  from assms(2,3) have same: "ag2 = ag1" by simp
  from assms(2) have who: "who ag1 \<noteq> Empty" by (rule MCTSplayer_new_who)
  from take_action_tree_view [OF assms(1) who, of h0 state] obtain act ag' h1 where
    a: "take_action G ag1 h0 state = Some (act, ag', h1)"
       "take_action G ag1 [] state = Some (act, ag', tree_view (length h0) h1)" by blast
  from take_action_tree_view [OF assms(1) who, of h0' state] obtain act2 ag2' h2 where
    b: "take_action G ag1 h0' state = Some (act2, ag2', h2)"
       "take_action G ag1 [] state = Some (act2, ag2', tree_view (length h0') h2)" by blast
  from a(2) b(2) have "act2 = act" "ag2' = ag'"
    "tree_view (length h0) h1 = tree_view (length h0') h2" by simp_all
  with a(1) b(1) same
  show "\<exists>act ag' h1 h2.
            take_action G ag1 h0 state = Some (act, ag', h1) \<and>
            take_action G ag2 h0' state = Some (act, ag', h2) \<and>
            tree_view (length h0) h1 = tree_view (length h0') h2" by blast
  from decisions_heap_independent [OF assms(1) who, of h0 boards h0'] same
  show "\<exists>acts ag' h1 h2.
            decisions G ag1 h0 boards = Some (acts, ag', h1) \<and>
            decisions G ag2 h0' boards = Some (acts, ag', h2)" by simp
qed

theorem take_action_deterministic_witness:
  "\<exists>act ag' h1 h2.
     take_action toy_game (toy_agent 4) [] [] = Some (act, ag', h1) \<and>
     take_action toy_game (toy_agent 4) demo_heap [] = Some (act, ag', h2) \<and>
     tree_view 0 h1 = tree_view 7 h2"
proof -
  have "length demo_heap = 7" by (simp add: demo_heap_def)
  with take_action_deterministic [OF toy_game_wf toy_agent_constructed toy_agent_constructed,
      of 4 "[]" "[]" demo_heap, THEN conjunct1]
  show ?thesis by simp
qed

subsection \<open>Runs of the three-cell game\<close>

lemma odd_three: "\<not> Suc (Suc 0) dvd Suc (Suc (Suc 0))"
proof -
  have "\<not> 2 dvd (3 :: nat)" by simp
  then show ?thesis by (simp only: numeral_2_eq_2 numeral_3_eq_3 simp_thms)
qed

lemmas toy_run_simps =
  search_def reverse_player_def Node_new_def select_def select_loop.simps simulate_loop.simps
  backprop_loop.simps deref_def expand_def select_child_def child_score_def is_unvisited_def
  DBL_MAX_def max_finite_def simulate_def backpropagation_def toy_game_def toy_agent_def Let_def odd_three

text \<open>Two passes of the search loop from the empty board leave \<open>demo_heap\<close>.\<close>

lemma demo_heap_reached:
  "search toy_game (toy_agent 2) [] [] =
     Some (\<lparr>space = [0, 1, 2], who = Black, simulation_times = 2, engine = 6\<rparr>, demo_heap)"
  by (simp add: toy_run_simps demo_heap_def numeral_2_eq_2)

text \<open>Two runs of \<^verbatim>\<open>take_action\<close> with the same configured seed, the same board and
  the same budget that do not return the same move: the first and the second decision of
  one agent, constructed with seed 0 and budget 1, on the empty board of the three-cell
  game. The second run starts from the engine and the candidate vector the first one
  left.\<close>

theorem second_decision_differs:
  "\<exists>ag0 ag1 h1 ag2 h2.
     MCTSplayer_new toy_game ''random'' ''black'' (Some 0) (Some 1) = Inr ag0 \<and>
     take_action toy_game ag0 [] [] = Some (Action_place 2, ag1, h1) \<and>
     who ag1 = who ag0 \<and> simulation_times ag1 = simulation_times ag0 \<and>
     take_action toy_game ag1 h1 [] = Some (Action_place 0, ag2, h2)"
  by (simp add: toy_agent_constructed) (simp add: take_action_def toy_run_simps)

end
